theory Spec2Isabelle
  imports Complex_Main
begin

section \<open>Dense arrays\<close>

text \<open>
  The program works on two-dimensional numpy arrays of floats. A matrix is the list of
  its rows; entries are real numbers, so every statement below is about exact
  arithmetic: the rounding, overflow and underflow of floats are not modelled. All
  products, sums and slices of the source are applied to arrays of conforming shapes;
  what numpy does on other shapes (broadcasting or a ValueError) is not part of the
  model, and the theorems state the shapes they assume. The exception is
  \<open>Stiefel_diff_SVD\<close>, whose model raises what numpy raises on the shapes it rejects.
\<close>

type_synonym mat = "real list list"
type_synonym vec = "real list"

definition nrows :: "mat \<Rightarrow> nat" where
  "nrows A = length A"

definition ncols :: "mat \<Rightarrow> nat" where
  "ncols A = (case A of [] \<Rightarrow> 0 | r # _ \<Rightarrow> length r)"

definition is_mat :: "nat \<Rightarrow> nat \<Rightarrow> mat \<Rightarrow> bool" where
  "is_mat n p A \<longleftrightarrow> length A = n \<and> list_all (\<lambda>r. length r = p) A"

text \<open>Reading \<open>A[i, j]\<close>. The source only reads inside the array; elsewhere the accessor is 0.\<close>

definition elt :: "mat \<Rightarrow> nat \<Rightarrow> nat \<Rightarrow> real" where
  "elt A i j = (if i < length A \<and> j < length (A ! i) then A ! i ! j else 0)"

text \<open>Writing \<open>A[i, j] = v\<close> in place.\<close>

definition set_elt :: "mat \<Rightarrow> nat \<Rightarrow> nat \<Rightarrow> real \<Rightarrow> mat" where
  "set_elt A i j v = A[i := (A ! i)[j := v]]"

definition mat_of :: "nat \<Rightarrow> nat \<Rightarrow> (nat \<Rightarrow> nat \<Rightarrow> real) \<Rightarrow> mat" where
  "mat_of n p f = map (\<lambda>i. map (\<lambda>j. f i j) [0..<p]) [0..<n]"

definition zeros :: "nat \<Rightarrow> nat \<Rightarrow> mat" where
  "zeros n p = replicate n (replicate p 0)"

definition identity :: "nat \<Rightarrow> mat" where
  "identity p = mat_of p p (\<lambda>i j. if i = j then 1 else 0)"

definition transpose_m :: "mat \<Rightarrow> mat" where
  "transpose_m A = mat_of (ncols A) (nrows A) (\<lambda>i j. elt A j i)"

definition dot :: "mat \<Rightarrow> mat \<Rightarrow> mat" where
  "dot A B = mat_of (nrows A) (ncols B) (\<lambda>i j. \<Sum>k = 0..<ncols A. elt A i k * elt B k j)"

definition madd :: "mat \<Rightarrow> mat \<Rightarrow> mat" where
  "madd A B = mat_of (nrows A) (ncols A) (\<lambda>i j. elt A i j + elt B i j)"

definition msub :: "mat \<Rightarrow> mat \<Rightarrow> mat" where
  "msub A B = mat_of (nrows A) (ncols A) (\<lambda>i j. elt A i j - elt B i j)"

definition smul :: "real \<Rightarrow> mat \<Rightarrow> mat" where
  "smul c A = mat_of (nrows A) (ncols A) (\<lambda>i j. c * elt A i j)"

definition mneg :: "mat \<Rightarrow> mat" where
  "mneg A = mat_of (nrows A) (ncols A) (\<lambda>i j. - elt A i j)"

text \<open>\<open>concatenate((A, B), axis=1)\<close> puts the rows side by side, \<open>axis=0\<close> stacks them.\<close>

definition concatenate1 :: "mat \<Rightarrow> mat \<Rightarrow> mat" where
  "concatenate1 A B = map (\<lambda>(r, s). r @ s) (zip A B)"

definition concatenate0 :: "mat \<Rightarrow> mat \<Rightarrow> mat" where
  "concatenate0 A B = A @ B"

text \<open>The slice \<open>A[r0:r1, c0:c1]\<close>.\<close>

definition slice :: "mat \<Rightarrow> nat \<Rightarrow> nat \<Rightarrow> nat \<Rightarrow> nat \<Rightarrow> mat" where
  "slice A r0 r1 c0 c1 = map (\<lambda>r. take (c1 - c0) (drop c0 r)) (take (r1 - r0) (drop r0 A))"

text \<open>One-dimensional arrays: a column \<open>A[:, k]\<close>, \<open>diag\<close> of a vector, and the products
  \<open>dot\<close> forms of a matrix with a vector and of two vectors.\<close>

definition col :: "mat \<Rightarrow> nat \<Rightarrow> vec" where
  "col A k = map (\<lambda>i. elt A i k) [0..<nrows A]"

definition diag :: "vec \<Rightarrow> mat" where
  "diag s = mat_of (length s) (length s) (\<lambda>i j. if i = j then s ! i else 0)"

definition dot_mv :: "mat \<Rightarrow> vec \<Rightarrow> vec" where
  "dot_mv A x = map (\<lambda>i. \<Sum>k = 0..<ncols A. elt A i k * x ! k) [0..<nrows A]"

definition dot_vv :: "vec \<Rightarrow> vec \<Rightarrow> real" where
  "dot_vv x y = (\<Sum>k = 0..<length x. x ! k * y ! k)"

section \<open>Errors and the linear-algebra library\<close>

text \<open>
  The exceptions the functions can end with on conforming shapes: \<open>LinAlgError\<close> from
  \<open>solve_triangular\<close> on a singular factor, \<open>ZeroDivisionError\<close> from dividing Python
  floats, and \<open>UnboundLocalError\<close> from reading a local name that was never assigned.
  On other shapes numpy raises \<open>ValueError\<close> from a \<open>dot\<close> whose arguments are not aligned
  and \<open>IndexError\<close> from reading a column that an array does not have.
\<close>

datatype error = LinAlgError | ZeroDivisionError | UnboundLocalError | ValueError | IndexError

text \<open>Division of two Python floats raises on a zero divisor.\<close>

definition py_div :: "real \<Rightarrow> real \<Rightarrow> error + real" where
  "py_div x y = (if y = 0 then Inl ZeroDivisionError else Inr (x / y))"

text \<open>
  The factorisations come from scipy. \<open>qr\<close> is \<open>linalg.qr\<close> in economic mode without
  pivoting, returning \<open>(Q, R)\<close>; \<open>qr_leaves\<close> is what a call with \<open>overwrite_a=True\<close>
  leaves in the storage of its argument; \<open>expm\<close> is \<open>linalg.expm\<close>. They are parameters:
  every theorem states what it assumes of them.
\<close>

record linalg =
  qr :: "mat \<Rightarrow> mat \<times> mat"
  qr_leaves :: "mat \<Rightarrow> mat"
  expm :: "mat \<Rightarrow> mat"

text \<open>
  \<open>linalg.solve_triangular(a, b)\<close> with the default \<open>lower=False\<close> reads the upper
  triangle of \<open>a\<close> only and solves \<open>a x = b\<close> by back substitution, column by column; it
  raises \<open>LinAlgError\<close> when a diagonal entry of \<open>a\<close> is exactly zero. \<open>bsol r b p i\<close> is
  entry \<open>i\<close> of the solution of the \<open>p\<close>-by-\<open>p\<close> system with upper triangle \<open>r\<close> and
  right-hand side \<open>b\<close>.
\<close>

function bsol :: "(nat \<Rightarrow> nat \<Rightarrow> real) \<Rightarrow> (nat \<Rightarrow> real) \<Rightarrow> nat \<Rightarrow> nat \<Rightarrow> real" where
  "bsol r b p i = (b i - (\<Sum>k = Suc i..<p. r i k * bsol r b p k)) / r i i"
  by auto
termination
  by (relation "measure (\<lambda>(r, b, p, i). p - i)") auto

declare bsol.simps [simp del]

definition solve_triangular :: "mat \<Rightarrow> mat \<Rightarrow> error + mat" where
  "solve_triangular a b =
     (let M = nrows a in
      if list_ex (\<lambda>i. elt a i i = 0) [0..<M] then Inl LinAlgError
      else Inr (mat_of M (ncols b) (\<lambda>i j. bsol (elt a) (\<lambda>k. elt b k j) M i)))"

section \<open>Differentiating the QR decomposition\<close>

text \<open>\<open>select_lower(M)\<close>: the strict lower triangle of \<open>M\<close>, copied entry by entry into zeros.\<close>

definition select_lower :: "mat \<Rightarrow> mat" where
  "select_lower M =
     (let n = nrows M; L = zeros n n in
      fold (\<lambda>i L. fold (\<lambda>j L. set_elt L i j (elt M i j)) [0..<i] L) [0..<n] L)"

text \<open>The two "clean up numerically" loops: \<open>A[i, j] = 0.0\<close> for \<open>j < i\<close>.\<close>

definition clean_lower :: "mat \<Rightarrow> mat" where
  "clean_lower A = fold (\<lambda>i A. fold (\<lambda>j A. set_elt A i j 0) [0..<i] A) [0..<nrows A] A"

definition Stiefel_diff_QR :: "linalg \<Rightarrow> mat \<Rightarrow> mat \<Rightarrow> error + (mat \<times> mat \<times> mat \<times> mat)" where
  "Stiefel_diff_QR lib A0 V =
     (let n = nrows A0; p = ncols A0;
          (Q, R) = qr lib A0
      in case solve_triangular R (identity p) of
           Inl e \<Rightarrow> Inl e
         | Inr Rinv \<Rightarrow>
            (let Rinv = clean_lower Rinv;
                 QTV = dot (transpose_m Q) V;
                 D = dot QTV Rinv;
                 D = select_lower D;
                 D = msub D (transpose_m D);
                 dR = msub QTV (dot D R);
                 dR = clean_lower dR;
                 dQ = msub V (dot Q QTV);
                 dQ = madd (dot dQ Rinv) (dot Q D)
             in Inr (Q, dQ, R, dR)))"

section \<open>Differentiating the matrix exponential\<close>

definition diff_expm :: "linalg \<Rightarrow> mat \<Rightarrow> mat \<Rightarrow> mat \<times> mat" where
  "diff_expm lib M dM =
     (let n = nrows M;
          upper = concatenate1 M dM;
          lower = concatenate1 (zeros n n) M;
          Aux = concatenate0 upper lower;
          dexpm = expm lib Aux;
          expM = slice dexpm 0 n 0 n;
          dexpM = slice dexpm 0 n n (2 * n)
      in (expM, dexpM))"

section \<open>Differentiating the Stiefel exponential\<close>

text \<open>
  \<open>metric_alpha\<close> is a Python float (its default is \<open>0.0\<close>), so the two divisions by
  \<open>metric_alpha + 1.0\<close> raise when it is \<open>-1\<close>. The pair \<open>expA, dexpA\<close> is assigned only
  under the first test on \<open>metric_alpha\<close>; it is an option here.
\<close>

definition Stiefel_diff_exp :: "linalg \<Rightarrow> mat \<Rightarrow> mat \<Rightarrow> mat \<Rightarrow> real \<Rightarrow> error + mat" where
  "Stiefel_diff_exp lib U Delta V metric_alpha =
     (let n = nrows U; p = ncols U;
          A0 = dot (transpose_m U) Delta;
          A0 = smul (1/2) (msub A0 (transpose_m A0));
          X0 = msub Delta (dot U A0);
          dA0 = dot (transpose_m U) V;
          dA0 = smul (1/2) (msub dA0 (transpose_m dA0));
          Y0 = msub V (dot U dA0)
      in case Stiefel_diff_QR lib X0 Y0 of
           Inl e \<Rightarrow> Inl e
         | Inr (Q, dQ, R, dR) \<Rightarrow>
      (case py_div 1 (metric_alpha + 1) of
           Inl e \<Rightarrow> Inl e
         | Inr v \<Rightarrow>
            (let upper = concatenate1 (smul v A0) (mneg (transpose_m R));
                 lower = concatenate1 R (zeros p p);
                 M = concatenate0 upper lower;
                 upper = concatenate1 (smul v dA0) (mneg (transpose_m dR));
                 lower = concatenate1 dR (zeros p p);
                 dM = concatenate0 upper lower;
                 (expM, dexpM) = diff_expm lib M dM;
                 expM_I_0 = slice expM 0 (nrows expM) 0 p;
                 dexpM_I_0 = slice dexpM 0 (nrows dexpM) 0 p
             in case (if \<bar>metric_alpha\<bar> > 1 / 10 ^ 10
                      then (case py_div metric_alpha (metric_alpha + 1) of
                              Inl e \<Rightarrow> Inl e
                            | Inr mu \<Rightarrow> Inr (Some (diff_expm lib (smul mu A0) (smul mu dA0))))
                      else Inr None) of
                  Inl e \<Rightarrow> Inl e
                | Inr aux \<Rightarrow>
                   (if \<bar>metric_alpha\<bar> > 1 / 10 ^ 10 \<and> \<bar>metric_alpha + 1\<bar> > 1 / 10 ^ 10
                    then (case aux of
                            None \<Rightarrow> Inl UnboundLocalError
                          | Some (expA, dexpA) \<Rightarrow>
                             Inr (madd (madd (madd (madd
                                   (dot dQ (dot (slice expM_I_0 p (2 * p) 0 p) expA))
                                   (dot U (dot (slice dexpM_I_0 0 p 0 p) expA)))
                                   (dot Q (dot (slice dexpM_I_0 p (2 * p) 0 p) expA)))
                                   (dot U (dot (slice expM_I_0 0 p 0 p) dexpA)))
                                   (dot Q (dot (slice expM_I_0 p (2 * p) 0 p) dexpA))))
                    else Inr (madd (madd
                                   (dot dQ (slice expM_I_0 p (2 * p) 0 p))
                                   (dot U (slice dexpM_I_0 0 p 0 p)))
                                   (dot Q (slice dexpM_I_0 p (2 * p) 0 p)))))))"

section \<open>Differentiating the singular value decomposition\<close>

text \<open>
  \<open>Stiefel_diff_SVD\<close> reads the shapes of \<open>U\<close> and \<open>V\<close> and checks nothing. What numpy
  raises on the way is in the model, in the order of the source:
  \<^item> the first loop reads the column \<open>V[:, k]\<close> for \<open>k < p\<close>, an \<open>IndexError\<close> when \<open>V\<close> has no
    such column; at \<open>k = 0\<close> the product \<open>dot(dY, V[:, 0])\<close> is a \<open>ValueError\<close> unless \<open>dY\<close>
    has as many columns as \<open>V\<close> has rows, and the product with \<open>U[:, 0]\<close> is one unless
    \<open>dY\<close> has as many rows as \<open>U\<close>;
  \<^item> \<open>dot(V[:, 0:p], diag(S_inv))\<close> is a \<open>ValueError\<close> unless \<open>S\<close> has length \<open>p\<close>, and so are
    \<open>dot(dY, VSinv)\<close> and \<open>dot(U.T, dYVSinv)\<close> on a \<open>dY\<close> of another shape than \<open>n\<close> by \<open>m\<close>
    (met here when \<open>p = 0\<close> and the loop did not run).

  Past these every product is aligned and every index is inside its array. An array is
  taken to have at least one row: the list of the rows of an array without rows does not
  record how many columns it has.

  The divisions of \<open>Stiefel_diff_SVD\<close> are numpy divisions: a zero divisor raises nothing
  and gives \<open>inf\<close> or \<open>nan\<close>, which spreads to the arrays returned. The reals have no such
  values, so the result of a call that returns is either \<open>Arrays\<close>, the six arrays with
  the values that exact arithmetic gives their entries, or the mark \<open>Inf_or_NaN\<close>: six
  arrays were returned, and a division by zero has put \<open>inf\<close> or \<open>nan\<close> in them. The
  divisors are the \<open>S[k]\<close> and the products \<open>(S[k] + S[j]) * (S[k] - S[j])\<close> for \<open>j < k\<close>,
  and \<open>divisors_nonzero\<close> says that none of them is zero as a real number. A float divisor
  can be zero where the real one is not (the product underflows for entries of \<open>S\<close> near
  \<open>1e-200\<close>); the source then returns \<open>inf\<close> or \<open>nan\<close> as well, and raises nothing. Such
  effects of rounding are outside exact arithmetic, here as for the other functions.
\<close>

datatype svd_result = Arrays "mat \<times> mat \<times> mat \<times> mat \<times> vec \<times> mat" | Inf_or_NaN

definition divisors_nonzero :: "vec \<Rightarrow> nat \<Rightarrow> bool" where
  "divisors_nonzero S p \<longleftrightarrow>
     list_all (\<lambda>k. S ! k \<noteq> 0) [0..<p] \<and>
     list_all (\<lambda>j. list_all (\<lambda>k. (S ! k + S ! j) * (S ! k - S ! j) \<noteq> 0) [j + 1..<p]) [0..<p]"

text \<open>
  \<open>S\<close> is a one-dimensional array, \<open>U[:, k]\<close> and \<open>V[:, k]\<close> are columns, and \<open>V[:, 0:p]\<close>,
  \<open>V[:, p:m]\<close> take all rows. The argument \<open>Y\<close> is not used. The function returns
  \<open>dU_bot, A, dU, Alpha, dS, dV\<close>.
\<close>

definition Stiefel_diff_SVD :: "mat \<Rightarrow> mat \<Rightarrow> mat \<Rightarrow> vec \<Rightarrow> mat \<Rightarrow> error + svd_result" where
  "Stiefel_diff_SVD Y dY U S V =
     (let n = nrows U; p = ncols U;
          m = nrows V
      in if 0 < p \<and> ncols V = 0 then Inl IndexError
         else if 0 < p \<and> (ncols dY \<noteq> m \<or> nrows dY \<noteq> n) then Inl ValueError
         else if ncols V < p then Inl IndexError
         else if length S \<noteq> p \<or> ncols dY \<noteq> m \<or> nrows dY \<noteq> n then Inl ValueError
         else
     (let S_inv = map (\<lambda>s. 1 / s) S;
          dS = replicate p 0;
          dS = fold (\<lambda>k dS. dS[k := dot_vv (col U k) (dot_mv dY (col V k))]) [0..<p] dS;
          VSinv = dot (slice V 0 m 0 p) (diag S_inv);
          dYVSinv = dot dY VSinv;
          UTdYVSinv = dot (transpose_m U) dYVSinv;
          dU_bot = msub dYVSinv (dot U UTdYVSinv);
          UTdY = dot (transpose_m U) dY;
          Alpha_p = zeros p p;
          C = dot UTdY (slice V 0 m 0 p);
          Alpha_p = fold (\<lambda>j A. fold (\<lambda>k A.
                       (let A = set_elt A j k
                                  ((S ! j * elt C j k + S ! k * elt C k j)
                                     / ((S ! k + S ! j) * (S ! k - S ! j)))
                        in set_elt A k j (- elt A j k)))
                     [j + 1..<p] A) [0..<p] Alpha_p;
          dV = dot (slice V 0 m 0 p) Alpha_p;
          dV = (if m = ncols V \<and> m > p
                then (let Alpha_mp = zeros (m - p) p;
                          C = dot UTdY (slice V 0 m p m);
                          Alpha_mp = fold (\<lambda>j A. fold (\<lambda>k A. set_elt A j k (elt C k j / S ! k))
                                       [0..<p] A) [0..<m - p] Alpha_mp
                      in madd dV (dot (slice V 0 m p m) Alpha_mp))
                else dV);
          Alpha = Alpha_p;
          X = dot (msub (dot (diag S) Alpha) (diag dS)) (diag S_inv);
          A = madd UTdYVSinv X;
          A = smul (1/2) (msub A (transpose_m A));
          dU = madd dYVSinv (dot U X)
      in if divisors_nonzero S p then Inr (Arrays (dU_bot, A, dU, Alpha, dS, dV))
         else Inr Inf_or_NaN))"

section \<open>Entry functions\<close>

text \<open>
  The proofs work with the entry functions of the arrays. \<open>mm k f g\<close> is the product of
  two entry functions over an inner dimension \<open>k\<close>, \<open>idp p\<close> the entries of the identity,
  and \<open>rinv r p\<close> the entries of the inverse that back substitution computes.
\<close>

definition mm :: "nat \<Rightarrow> (nat \<Rightarrow> nat \<Rightarrow> real) \<Rightarrow> (nat \<Rightarrow> nat \<Rightarrow> real) \<Rightarrow> nat \<Rightarrow> nat \<Rightarrow> real" where
  "mm k f g = (\<lambda>i j. \<Sum>l = 0..<k. f i l * g l j)"

definition idp :: "nat \<Rightarrow> nat \<Rightarrow> nat \<Rightarrow> real" where
  "idp p = (\<lambda>i j. if i = j \<and> i < p then 1 else 0)"

definition rinv :: "(nat \<Rightarrow> nat \<Rightarrow> real) \<Rightarrow> nat \<Rightarrow> nat \<Rightarrow> nat \<Rightarrow> real" where
  "rinv r p = (\<lambda>i j. if i < p \<and> j < p then bsol r (\<lambda>k. idp p k j) p i else 0)"

section \<open>The matrix exponential\<close>

text \<open>
  The exponential of a square matrix is the sum of its power series, taken entry by
  entry: \<open>mpow n f k\<close> holds the entries of the \<open>k\<close>-th power and \<open>expf n f\<close> those of the
  exponential. It is what \<open>linalg.expm\<close> computes in exact arithmetic.
\<close>

primrec mpow :: "nat \<Rightarrow> (nat \<Rightarrow> nat \<Rightarrow> real) \<Rightarrow> nat \<Rightarrow> nat \<Rightarrow> nat \<Rightarrow> real" where
  "mpow n f 0 = idp n"
| "mpow n f (Suc k) = mm n f (mpow n f k)"

definition expf :: "nat \<Rightarrow> (nat \<Rightarrow> nat \<Rightarrow> real) \<Rightarrow> nat \<Rightarrow> nat \<Rightarrow> real" where
  "expf n f = (\<lambda>i j. \<Sum>k. mpow n f k i j / fact k)"

definition expm_exact :: "mat \<Rightarrow> mat" where
  "expm_exact A = mat_of (nrows A) (nrows A) (expf (nrows A) (elt A))"

text \<open>
  The entries of a matrix of four blocks, and the series that the upper right block of
  the powers of \<open>[[M, dM], [0, M]]\<close> sums to.
\<close>

definition blk :: "nat \<Rightarrow> (nat \<Rightarrow> nat \<Rightarrow> real) \<Rightarrow> (nat \<Rightarrow> nat \<Rightarrow> real) \<Rightarrow> (nat \<Rightarrow> nat \<Rightarrow> real)
    \<Rightarrow> (nat \<Rightarrow> nat \<Rightarrow> real) \<Rightarrow> nat \<Rightarrow> nat \<Rightarrow> real" where
  "blk p a b c d = (\<lambda>i j. if i < p then (if j < p then a i j else b i (j - p))
                          else (if j < p then c (i - p) j else d (i - p) (j - p)))"

primrec tpow :: "nat \<Rightarrow> (nat \<Rightarrow> nat \<Rightarrow> real) \<Rightarrow> (nat \<Rightarrow> nat \<Rightarrow> real) \<Rightarrow> nat \<Rightarrow> nat \<Rightarrow> nat \<Rightarrow> real" where
  "tpow n m d 0 = (\<lambda>i j. 0)"
| "tpow n m d (Suc k) = (\<lambda>i j. mm n m (tpow n m d k) i j + mm n d (mpow n m k) i j)"

definition dexpf :: "nat \<Rightarrow> (nat \<Rightarrow> nat \<Rightarrow> real) \<Rightarrow> (nat \<Rightarrow> nat \<Rightarrow> real) \<Rightarrow> nat \<Rightarrow> nat \<Rightarrow> real" where
  "dexpf n m d = (\<lambda>i j. \<Sum>k. tpow n m d k i j / fact k)"

section \<open>What the theorems assume of the inputs\<close>

definition upper_triangular :: "mat \<Rightarrow> bool" where
  "upper_triangular R \<longleftrightarrow> list_all (\<lambda>i. list_all (\<lambda>j. elt R i j = 0) [0..<i]) [0..<nrows R]"

text \<open>
  What \<open>linalg.qr\<close> in economic mode returns for an \<open>n\<close>-by-\<open>p\<close> array with \<open>p \<le> n\<close>:
  \<open>Q\<close> with orthonormal columns and an upper triangular \<open>R\<close> with \<open>Q R = A\<close>.
\<close>

definition thin_qr :: "mat \<Rightarrow> mat \<Rightarrow> mat \<Rightarrow> bool" where
  "thin_qr A Q R \<longleftrightarrow>
     is_mat (nrows A) (ncols A) Q \<and> is_mat (ncols A) (ncols A) R \<and>
     dot (transpose_m Q) Q = identity (ncols A) \<and> upper_triangular R \<and> dot Q R = A"

text \<open>Full column rank: only the zero combination of the columns vanishes.\<close>

definition full_column_rank :: "mat \<Rightarrow> bool" where
  "full_column_rank A \<longleftrightarrow>
     (\<forall>x. (\<forall>i<nrows A. (\<Sum>j = 0..<ncols A. elt A i j * x j) = 0) \<longrightarrow> (\<forall>j<ncols A. x j = 0))"

section \<open>The formulas as the specification words them\<close>

text \<open>
  \<open>skew M = (M - M\<^sup>T) / 2\<close>; a matrix is skew-symmetric when it equals the negative of its
  transpose.
\<close>

definition skew :: "mat \<Rightarrow> mat" where
  "skew M = smul (1/2) (msub M (transpose_m M))"

definition is_skew :: "mat \<Rightarrow> bool" where
  "is_skew M \<longleftrightarrow> M = mneg (transpose_m M)"

text \<open>The block matrix \<open>[[A, B], [C, D]]\<close> of four \<open>p\<close>-by-\<open>p\<close> blocks.\<close>

definition block2 :: "nat \<Rightarrow> mat \<Rightarrow> mat \<Rightarrow> mat \<Rightarrow> mat \<Rightarrow> mat" where
  "block2 p A B C D =
     mat_of (2 * p) (2 * p)
       (\<lambda>i j. if i < p then (if j < p then elt A i j else elt B i (j - p))
              else (if j < p then elt C (i - p) j else elt D (i - p) (j - p)))"

text \<open>
  Block assembly: with \<open>v = 1 / (alpha + 1)\<close>, the matrices
  \<open>M = [[v A0, -R\<^sup>T], [R, 0]]\<close> and \<open>dM = [[v dA0, -dR\<^sup>T], [dR, 0]]\<close>, the exponential of
  \<open>M\<close> and its derivative along \<open>dM\<close>, of which the left \<open>p\<close> columns are kept.
\<close>

definition exp_blocks :: "linalg \<Rightarrow> nat \<Rightarrow> real \<Rightarrow> mat \<Rightarrow> mat \<Rightarrow> mat \<Rightarrow> mat \<Rightarrow> mat \<times> mat" where
  "exp_blocks lib p v A0 dA0 R dR =
     (let M = block2 p (smul v A0) (mneg (transpose_m R)) R (zeros p p);
          dM = block2 p (smul v dA0) (mneg (transpose_m dR)) dR (zeros p p);
          (expM, dexpM) = diff_expm lib M dM
      in (slice expM 0 (2 * p) 0 p, slice dexpM 0 (2 * p) 0 p))"

text \<open>The two combination formulas, for the canonical metric and for the general one.\<close>

definition canonical_combination :: "nat \<Rightarrow> mat \<Rightarrow> mat \<Rightarrow> mat \<Rightarrow> mat \<times> mat \<Rightarrow> mat" where
  "canonical_combination p U Q dQ blocks =
     (let (expM_I0, dexpM_I0) = blocks in
      madd (madd (dot dQ (slice expM_I0 p (2 * p) 0 p))
                 (dot U (slice dexpM_I0 0 p 0 p)))
           (dot Q (slice dexpM_I0 p (2 * p) 0 p)))"

definition general_combination :: "nat \<Rightarrow> mat \<Rightarrow> mat \<Rightarrow> mat \<Rightarrow> mat \<times> mat \<Rightarrow> mat \<times> mat \<Rightarrow> mat" where
  "general_combination p U Q dQ blocks secondary =
     (let (expM_I0, dexpM_I0) = blocks; (expA, dexpA) = secondary in
      madd (madd (madd (madd
        (dot dQ (dot (slice expM_I0 p (2 * p) 0 p) expA))
        (dot U (dot (slice dexpM_I0 0 p 0 p) expA)))
        (dot Q (dot (slice dexpM_I0 p (2 * p) 0 p) expA)))
        (dot U (dot (slice expM_I0 0 p 0 p) dexpA)))
        (dot Q (dot (slice expM_I0 p (2 * p) 0 p) dexpA)))"

text \<open>
  The derivative of \<open>V\<close> as the specification words it: with the full \<open>m\<close>-by-\<open>m\<close> matrix
  \<open>V\<close> and \<open>m > p\<close>, \<open>dV = V_p Alpha_p + V_{p:m} Alpha_mp\<close> where
  \<open>Alpha_mp[j, k] = C'[k, j] / S_k\<close> and \<open>C' = U\<^sup>T dY V_{p:m}\<close>; otherwise \<open>dV = V_p Alpha_p\<close>.
\<close>

definition Alpha_mp_spec :: "nat \<Rightarrow> nat \<Rightarrow> vec \<Rightarrow> mat \<Rightarrow> mat" where
  "Alpha_mp_spec m p S C' = mat_of (m - p) p (\<lambda>j k. elt C' k j / S ! k)"

definition dV_spec :: "mat \<Rightarrow> mat \<Rightarrow> vec \<Rightarrow> mat \<Rightarrow> mat \<Rightarrow> mat" where
  "dV_spec dY U S V Alpha_p =
     (let p = ncols U; m = nrows V;
          V_p = slice V 0 m 0 p;
          V_pm = slice V 0 m p m
      in if ncols V = m \<and> m > p
         then madd (dot V_p Alpha_p)
                (dot V_pm (Alpha_mp_spec m p S (dot (dot (transpose_m U) dY) V_pm)))
         else dot V_p Alpha_p)"

text \<open>
  The derivative of the singular value decomposition as the specification words it
  (section 4.4), without loops: \<open>dS_k = U_k\<^sup>T dY V_k\<close>; \<open>S_inv = 1 / S\<close>,
  \<open>dYVSinv = dY V_p diag(S_inv)\<close>, \<open>dU_bot = dYVSinv - U (U\<^sup>T dYVSinv)\<close>; \<open>C = U\<^sup>T dY V_p\<close> and,
  for \<open>j < k\<close>, \<open>Alpha_p[j, k] = (S_j C[j, k] + S_k C[k, j]) / ((S_k + S_j) (S_k - S_j))\<close>
  with \<open>Alpha_p[k, j] = - Alpha_p[j, k]\<close>; \<open>dV\<close> as above;
  \<open>X = diag(S) Alpha_p diag(S_inv) - diag(dS) diag(S_inv)\<close>, \<open>A = skew (U\<^sup>T dYVSinv + X)\<close> and
  \<open>dU = dYVSinv + U X\<close>.
\<close>

definition Alpha_p_spec :: "nat \<Rightarrow> vec \<Rightarrow> mat \<Rightarrow> mat" where
  "Alpha_p_spec p S C = mat_of p p (\<lambda>j k.
     if j < k then (S ! j * elt C j k + S ! k * elt C k j) / ((S ! k + S ! j) * (S ! k - S ! j))
     else if k < j then - ((S ! k * elt C k j + S ! j * elt C j k) / ((S ! j + S ! k) * (S ! j - S ! k)))
     else 0)"

definition svd_formulas :: "mat \<Rightarrow> mat \<Rightarrow> vec \<Rightarrow> mat \<Rightarrow> mat \<times> mat \<times> mat \<times> mat \<times> vec \<times> mat" where
  "svd_formulas dY U S V =
     (let p = ncols U; m = nrows V;
          V_p = slice V 0 m 0 p;
          dS = map (\<lambda>k. dot_vv (col U k) (dot_mv dY (col V k))) [0..<p];
          S_inv = map (\<lambda>s. 1 / s) S;
          dYVSinv = dot (dot dY V_p) (diag S_inv);
          dU_bot = msub dYVSinv (dot U (dot (transpose_m U) dYVSinv));
          C = dot (dot (transpose_m U) dY) V_p;
          Alpha_p = Alpha_p_spec p S C;
          dV = dV_spec dY U S V Alpha_p;
          X = msub (dot (dot (diag S) Alpha_p) (diag S_inv)) (dot (diag dS) (diag S_inv));
          A = skew (madd (dot (transpose_m U) dYVSinv) X);
          dU = madd dYVSinv (dot U X)
      in (dU_bot, A, dU, Alpha_p, dS, dV))"

text \<open>
  The same entry by entry: \<open>UTdYV U dY V j c\<close> is the entry \<open>(j, c)\<close> of \<open>U\<^sup>T dY V\<close>, and
  \<open>Alpha_p_entry\<close> the entry \<open>(j, k)\<close> of \<open>Alpha_p\<close>.
\<close>

definition UTdYV :: "mat \<Rightarrow> mat \<Rightarrow> mat \<Rightarrow> nat \<Rightarrow> nat \<Rightarrow> real" where
  "UTdYV U dY V j c = (\<Sum>b = 0..<nrows V. (\<Sum>a = 0..<nrows U. elt U a j * elt dY a b) * elt V b c)"

definition Alpha_p_entry :: "mat \<Rightarrow> mat \<Rightarrow> vec \<Rightarrow> mat \<Rightarrow> nat \<Rightarrow> nat \<Rightarrow> real" where
  "Alpha_p_entry dY U S V j k =
     (if j < k then (S ! j * UTdYV U dY V j k + S ! k * UTdYV U dY V k j)
                      / ((S ! k + S ! j) * (S ! k - S ! j))
      else if k < j then - ((S ! k * UTdYV U dY V k j + S ! j * UTdYV U dY V j k)
                      / ((S ! j + S ! k) * (S ! j - S ! k)))
      else 0)"

section \<open>The arrays of the caller\<close>

text \<open>
  The functions receive references to arrays of the caller. A store maps addresses to
  the arrays held there, two-dimensional or one-dimensional; every result of \<open>dot\<close>, of
  an arithmetic operator or of \<open>zeros\<close> is a fresh array. The definitions below say, for one
  call of each function, what the store is afterwards; the value returned is the one
  defined above. The only write to an array that is not fresh is in \<open>Stiefel_diff_QR\<close>:
  \<open>linalg.qr(A0, overwrite_a=True, ...)\<close> may use the storage of \<open>A0\<close>, and \<open>V\<close> is read after
  it. \<open>Stiefel_diff_exp\<close> calls \<open>Stiefel_diff_QR\<close> on its own arrays \<open>X0\<close> and \<open>Y0\<close>, which are
  new in the store.
\<close>

datatype array = Mat mat | Vec vec

type_synonym store = "array list"

definition get_mat :: "store \<Rightarrow> nat \<Rightarrow> mat" where
  "get_mat s a = (case s ! a of Mat m \<Rightarrow> m | Vec x \<Rightarrow> [])"

definition get_vec :: "store \<Rightarrow> nat \<Rightarrow> vec" where
  "get_vec s a = (case s ! a of Vec x \<Rightarrow> x | Mat m \<Rightarrow> [])"

definition Stiefel_diff_QR_call ::
    "linalg \<Rightarrow> nat \<Rightarrow> nat \<Rightarrow> store \<Rightarrow> store \<times> (error + (mat \<times> mat \<times> mat \<times> mat))" where
  "Stiefel_diff_QR_call lib a0 v s =
     (let A0 = get_mat s a0;
          s = s[a0 := Mat (qr_leaves lib A0)];
          V = get_mat s v
      in (s, Stiefel_diff_QR lib A0 V))"

definition diff_expm_call :: "linalg \<Rightarrow> nat \<Rightarrow> nat \<Rightarrow> store \<Rightarrow> store \<times> (mat \<times> mat)" where
  "diff_expm_call lib m dm s = (s, diff_expm lib (get_mat s m) (get_mat s dm))"

definition Stiefel_diff_exp_call ::
    "linalg \<Rightarrow> nat \<Rightarrow> nat \<Rightarrow> nat \<Rightarrow> real \<Rightarrow> store \<Rightarrow> store \<times> (error + mat)" where
  "Stiefel_diff_exp_call lib u delta v metric_alpha s =
     (let U = get_mat s u; Delta = get_mat s delta; V = get_mat s v;
          X0 = msub Delta (dot U (skew (dot (transpose_m U) Delta)));
          Y0 = msub V (dot U (skew (dot (transpose_m U) V)));
          x0 = length s;
          y0 = length s + 1;
          s = s @ [Mat X0, Mat Y0];
          (s, r) = Stiefel_diff_QR_call lib x0 y0 s
      in (s, Stiefel_diff_exp lib U Delta V metric_alpha))"

definition Stiefel_diff_SVD_call ::
    "nat \<Rightarrow> nat \<Rightarrow> nat \<Rightarrow> nat \<Rightarrow> nat \<Rightarrow> store \<Rightarrow> store \<times> (error + svd_result)" where
  "Stiefel_diff_SVD_call y dy u sv v s =
     (s, Stiefel_diff_SVD (get_mat s y) (get_mat s dy) (get_mat s u) (get_vec s sv) (get_mat s v))"

section \<open>Example data\<close>

text \<open>A 3-by-2 array of full column rank with its QR factors, and a direction.\<close>

definition A_ex :: mat where
  "A_ex = [[3, 4], [4, 19/2], [0, 0]]"

definition Q_ex :: mat where
  "Q_ex = [[3/5, -4/5], [4/5, 3/5], [0, 0]]"

definition R_ex :: mat where
  "R_ex = [[5, 10], [0, 5/2]]"

definition V_ex :: mat where
  "V_ex = [[1, 2], [3, 4], [5, 6]]"

text \<open>
  A library for the examples. Its QR routine returns the factors above and leaves its
  argument alone; its exponential sums the first ten terms of the power series.
  \<open>lib_exact\<close> has the exponential itself in its place.
\<close>

primrec mat_power :: "mat \<Rightarrow> nat \<Rightarrow> mat" where
  "mat_power A 0 = identity (nrows A)"
| "mat_power A (Suc k) = dot A (mat_power A k)"

definition expm_partial :: "nat \<Rightarrow> mat \<Rightarrow> mat" where
  "expm_partial N A =
     fold (\<lambda>k E. madd E (smul (1 / fact k) (mat_power A k))) [0..<N] (zeros (nrows A) (nrows A))"

definition lib_ex :: linalg where
  "lib_ex = \<lparr>qr = (\<lambda>A. (Q_ex, R_ex)), qr_leaves = (\<lambda>A. A), expm = expm_partial 10\<rparr>"

definition lib_exact :: linalg where
  "lib_exact = lib_ex\<lparr>expm := expm_exact\<rparr>"

text \<open>A Stiefel point, and a tangent argument whose \<open>U\<^sup>T Delta\<close> is not skew-symmetric.\<close>

definition U_ex :: mat where
  "U_ex = [[1, 0], [0, 1], [0, 0]]"

definition Delta_ex :: mat where
  "Delta_ex = [[3, 5], [3, 19/2], [0, 0]]"

text \<open>
  Data for the singular value decomposition: the full orthogonal \<open>V3_ex\<close>, a direction
  \<open>dY3_ex\<close>, and three spectra with the matrices \<open>U_ex diag(S) V_p\<^sup>T\<close> they belong to.
  \<open>S_near_ex\<close> has two entries \<open>1e-13\<close> apart, \<open>S_zero_ex\<close> a zero entry.
\<close>

definition V3_ex :: mat where
  "V3_ex = [[0, 1, 0], [1, 0, 0], [0, 0, 1]]"

definition dY3_ex :: mat where
  "dY3_ex = [[1, 2, 3], [4, 5, 6], [7, 8, 9]]"

definition S_ex :: vec where
  "S_ex = [2, 1]"

definition Y3_ex :: mat where
  "Y3_ex = [[0, 2, 0], [1, 0, 0], [0, 0, 0]]"

definition S_near_ex :: vec where
  "S_near_ex = [2, 2 + 1 / 10 ^ 13]"

definition Y_near_ex :: mat where
  "Y_near_ex = [[0, 2, 0], [2 + 1 / 10 ^ 13, 0, 0], [0, 0, 0]]"

definition S_zero_ex :: vec where
  "S_zero_ex = [2, 0]"

definition Y_zero_ex :: mat where
  "Y_zero_ex = [[0, 2, 0], [0, 0, 0], [0, 0, 0]]"

text \<open>
  A library whose QR routine uses the permission it is given: for an array stored in
  column-major order the factorisation is computed in place, and the storage of the
  argument holds \<open>Q\<close> afterwards.
\<close>

definition lib_inplace :: linalg where
  "lib_inplace = lib_ex\<lparr>qr_leaves := (\<lambda>A. fst (qr lib_ex A))\<rparr>"

text \<open>A square matrix and a direction for the exponential.\<close>

definition M_ex :: mat where
  "M_ex = [[0, 1], [-1, 0]]"

definition dM_ex :: mat where
  "dM_ex = [[1, 2], [3, 4]]"








section \<open>Arrays and their entries\<close>

lemma is_mat_mat_of: "is_mat n p (mat_of n p f)"
  by (simp add: is_mat_def mat_of_def list_all_iff)

lemma nrows_mat_of: "nrows (mat_of n p f) = n"
  by (simp add: nrows_def mat_of_def)

lemma ncols_mat_of: "0 < n \<Longrightarrow> ncols (mat_of n p f) = p"
  by (simp add: ncols_def mat_of_def upt_conv_Cons del: upt_Suc)

lemma elt_mat_of: "elt (mat_of n p f) i j = (if i < n \<and> j < p then f i j else 0)"
  by (auto simp: elt_def mat_of_def)

lemma is_mat_nrows: "is_mat n p A \<Longrightarrow> nrows A = n"
  by (simp add: is_mat_def nrows_def)

lemma is_mat_ncols: "is_mat n p A \<Longrightarrow> 0 < n \<Longrightarrow> ncols A = p"
  by (cases A) (simp_all add: is_mat_def ncols_def)

lemma elt_outside: "is_mat n p A \<Longrightarrow> \<not> (i < n \<and> j < p) \<Longrightarrow> elt A i j = 0"
  by (auto simp: is_mat_def elt_def list_all_iff)

lemma elt_inside: "is_mat n p A \<Longrightarrow> i < n \<Longrightarrow> j < p \<Longrightarrow> elt A i j = A ! i ! j"
  by (auto simp: is_mat_def elt_def list_all_iff)

lemma mat_eqI:
  assumes "is_mat n p A" "is_mat n p B" "\<And>i j. i < n \<Longrightarrow> j < p \<Longrightarrow> elt A i j = elt B i j"
  shows "A = B"
proof (rule nth_equalityI)
  show "length A = length B" using assms by (simp add: is_mat_def)
next
  fix i assume i: "i < length A"
  then have iB: "i < length B" and "i < n" using assms by (simp_all add: is_mat_def)
  have la: "length (A ! i) = p" using assms(1) i by (simp add: is_mat_def list_all_length)
  have lb: "length (B ! i) = p" using assms(2) iB by (simp add: is_mat_def list_all_length)
  show "A ! i = B ! i"
  proof (rule nth_equalityI)
    show "length (A ! i) = length (B ! i)" using la lb by simp
  next
    fix j assume "j < length (A ! i)"
    then have "j < p" using la by simp
    from assms(3)[OF \<open>i < n\<close> this] show "A ! i ! j = B ! i ! j"
      using i iB la lb \<open>j < p\<close> by (simp add: elt_def)
  qed
qed

lemma mat_of_elt: "is_mat n p A \<Longrightarrow> mat_of n p (elt A) = A"
  by (rule mat_eqI[of n p]) (simp_all add: is_mat_mat_of elt_mat_of)

lemma is_mat_dot: "is_mat (nrows A) (ncols B) (dot A B)"
  by (simp add: dot_def is_mat_mat_of)

lemma elt_dot: "is_mat k p B \<Longrightarrow> elt (dot A B) = mm (ncols A) (elt A) (elt B)"
proof (intro ext)
  fix i j assume B: "is_mat k p B"
  show "elt (dot A B) i j = mm (ncols A) (elt A) (elt B) i j"
  proof (cases "i < nrows A \<and> j < ncols B")
    case True
    then show ?thesis by (simp add: dot_def elt_mat_of mm_def)
  next
    case False
    have "elt A i l * elt B l j = 0" for l
    proof (cases "i < nrows A")
      case True
      with False have j: "\<not> j < ncols B" by simp
      have "elt B l j = 0"
      proof (cases "k = 0")
        case True then show ?thesis using B by (simp add: is_mat_def elt_def)
      next
        case False
        then have "ncols B = p" using B by (simp add: is_mat_ncols)
        with j show ?thesis using elt_outside[OF B, of l j] by simp
      qed
      then show ?thesis by simp
    next
      case False
      then show ?thesis by (simp add: elt_def nrows_def)
    qed
    then have "(\<Sum>l = 0..<ncols A. elt A i l * elt B l j) = 0"
      by (intro sum.neutral) blast
    then show ?thesis using False by (simp add: dot_def elt_mat_of mm_def)
  qed
qed

lemma mm_assoc: "mm k (mm l f g) h = mm l f (mm k g h)"
proof (intro ext)
  fix i j
  have "mm k (mm l f g) h i j = (\<Sum>a = 0..<k. \<Sum>b = 0..<l. f i b * g b a * h a j)"
    by (simp add: mm_def sum_distrib_right)
  also have "\<dots> = (\<Sum>b = 0..<l. \<Sum>a = 0..<k. f i b * g b a * h a j)"
    by (rule sum.swap)
  also have "\<dots> = mm l f (mm k g h) i j"
    by (simp add: mm_def sum_distrib_left mult.assoc)
  finally show "mm k (mm l f g) h i j = mm l f (mm k g h) i j" .
qed

lemma mm_add_left: "mm k (\<lambda>i j. f i j + g i j) h = (\<lambda>i j. mm k f h i j + mm k g h i j)"
  by (simp add: mm_def fun_eq_iff distrib_right sum.distrib)

lemma mm_sub_left: "mm k (\<lambda>i j. f i j - g i j) h = (\<lambda>i j. mm k f h i j - mm k g h i j)"
  by (simp add: mm_def fun_eq_iff left_diff_distrib sum_subtractf)

lemma mm_sub_right: "mm k f (\<lambda>i j. g i j - h i j) = (\<lambda>i j. mm k f g i j - mm k f h i j)"
  by (simp add: mm_def fun_eq_iff right_diff_distrib sum_subtractf)

lemma is_mat_set_elt: "is_mat n p A \<Longrightarrow> is_mat n p (set_elt A i j v)"
  by (cases "i < length A")
     (auto simp: is_mat_def set_elt_def list_all_length nth_list_update)

lemma elt_set_elt:
  "is_mat n p A \<Longrightarrow>
     elt (set_elt A i j v) a b = (if a = i \<and> b = j \<and> i < n \<and> j < p then v else elt A a b)"
  by (cases "i < length A"; cases "j < p")
     (auto simp: is_mat_def set_elt_def elt_def list_all_length nth_list_update)

lemma row_loop:
  assumes "is_mat n p A"
  shows "is_mat n p (fold (\<lambda>j A. set_elt A i j (g j)) [0..<c] A) \<and>
         elt (fold (\<lambda>j A. set_elt A i j (g j)) [0..<c] A) =
           (\<lambda>a b. if a = i \<and> b < c \<and> i < n \<and> b < p then g b else elt A a b)"
proof (induction c)
  case 0
  show ?case using assms by simp
next
  case (Suc c)
  let ?B = "fold (\<lambda>j A. set_elt A i j (g j)) [0..<c] A"
  from Suc have B: "is_mat n p ?B" by simp
  have "fold (\<lambda>j A. set_elt A i j (g j)) [0..<Suc c] A = set_elt ?B i c (g c)" by simp
  moreover have "is_mat n p (set_elt ?B i c (g c))" by (rule is_mat_set_elt[OF B])
  moreover have "elt (set_elt ?B i c (g c)) =
      (\<lambda>a b. if a = i \<and> b < Suc c \<and> i < n \<and> b < p then g b else elt A a b)"
    using Suc by (auto simp: fun_eq_iff elt_set_elt[OF B] less_Suc_eq)
  ultimately show ?case by simp
qed

lemma tri_loop:
  assumes "is_mat n p A"
  shows "is_mat n p (fold (\<lambda>i A. fold (\<lambda>j A. set_elt A i j (g i j)) [0..<i] A) [0..<m] A) \<and>
         elt (fold (\<lambda>i A. fold (\<lambda>j A. set_elt A i j (g i j)) [0..<i] A) [0..<m] A) =
           (\<lambda>a b. if a < m \<and> b < a \<and> a < n \<and> b < p then g a b else elt A a b)"
proof (induction m)
  case 0
  show ?case using assms by simp
next
  case (Suc m)
  let ?F = "\<lambda>i A. fold (\<lambda>j A. set_elt A i j (g i j)) [0..<i] A"
  let ?B = "fold ?F [0..<m] A"
  from Suc have B: "is_mat n p ?B" by simp
  have step: "fold ?F [0..<Suc m] A = ?F m ?B" by simp
  note r = row_loop[OF B, of m "g m" m]
  have "elt (?F m ?B) =
      (\<lambda>a b. if a < Suc m \<and> b < a \<and> a < n \<and> b < p then g a b else elt A a b)"
    using Suc r by (auto simp: fun_eq_iff less_Suc_eq)
  with r step show ?case by simp
qed

lemma is_mat_zeros: "is_mat n p (zeros n p)"
  by (simp add: is_mat_def zeros_def list_all_iff)

lemma elt_zeros: "elt (zeros n p) i j = 0"
  by (auto simp: elt_def zeros_def)

lemma nrows_zeros: "nrows (zeros n p) = n"
  by (simp add: nrows_def zeros_def)

lemma is_mat_select_lower: "is_mat (nrows M) (nrows M) (select_lower M)"
  using tri_loop[OF is_mat_zeros, of "nrows M" "nrows M" "elt M" "nrows M"]
  by (simp add: select_lower_def Let_def)

lemma elt_select_lower:
  "elt (select_lower M) = (\<lambda>i j. if j < i \<and> i < nrows M then elt M i j else 0)"
  using tri_loop[OF is_mat_zeros, of "nrows M" "nrows M" "elt M" "nrows M"]
  by (auto simp: select_lower_def Let_def fun_eq_iff elt_zeros)

lemma is_mat_clean_lower: "is_mat n p A \<Longrightarrow> is_mat n p (clean_lower A)"
  using tri_loop[of n p A "\<lambda>i j. 0" "nrows A"] by (simp add: clean_lower_def)

lemma elt_clean_lower:
  "is_mat n p A \<Longrightarrow> elt (clean_lower A) = (\<lambda>i j. if j < i then 0 else elt A i j)"
proof -
  assume A: "is_mat n p A"
  have "elt (clean_lower A) i j = (if j < i then 0 else elt A i j)" for i j
    using tri_loop[OF A, of "\<lambda>i j. 0" "nrows A"] is_mat_nrows[OF A] elt_outside[OF A, of i j]
    by (auto simp: clean_lower_def)
  then show ?thesis by (simp add: fun_eq_iff)
qed

lemma is_mat_transpose: "is_mat (ncols A) (nrows A) (transpose_m A)"
  by (simp add: transpose_m_def is_mat_mat_of)

lemma elt_transpose: "is_mat n p A \<Longrightarrow> elt (transpose_m A) = (\<lambda>i j. elt A j i)"
proof (intro ext)
  fix i j assume A: "is_mat n p A"
  show "elt (transpose_m A) i j = elt A j i"
  proof (cases "n = 0")
    case True
    then have "A = []" using A by (simp add: is_mat_def)
    then show ?thesis by (simp add: transpose_m_def elt_mat_of nrows_def) (simp add: elt_def)
  next
    case False
    then have "ncols A = p" "nrows A = n" using A by (simp_all add: is_mat_ncols is_mat_nrows)
    then show ?thesis using elt_outside[OF A, of j i] by (auto simp: transpose_m_def elt_mat_of)
  qed
qed

lemma is_mat_msub: "is_mat (nrows A) (ncols A) (msub A B)"
  by (simp add: msub_def is_mat_mat_of)

lemma is_mat_madd: "is_mat (nrows A) (ncols A) (madd A B)"
  by (simp add: madd_def is_mat_mat_of)

lemma is_mat_smul: "is_mat (nrows A) (ncols A) (smul c A)"
  by (simp add: smul_def is_mat_mat_of)

lemma is_mat_mneg: "is_mat (nrows A) (ncols A) (mneg A)"
  by (simp add: mneg_def is_mat_mat_of)

lemma elt_binop:
  assumes "is_mat n p A" "is_mat n p B" "h 0 0 = (0::real)"
  shows "elt (mat_of (nrows A) (ncols A) (\<lambda>i j. h (elt A i j) (elt B i j))) = (\<lambda>i j. h (elt A i j) (elt B i j))"
proof (intro ext)
  fix i j
  show "elt (mat_of (nrows A) (ncols A) (\<lambda>i j. h (elt A i j) (elt B i j))) i j = h (elt A i j) (elt B i j)"
  proof (cases "i < n \<and> j < p")
    case True
    then have "ncols A = p" "nrows A = n" using assms by (simp_all add: is_mat_ncols is_mat_nrows)
    with True show ?thesis by (simp add: elt_mat_of)
  next
    case False
    then have "elt A i j = 0" "elt B i j = 0" using assms elt_outside by blast+
    then show ?thesis using assms(3) by (simp add: elt_mat_of)
  qed
qed

lemma elt_msub: "is_mat n p A \<Longrightarrow> is_mat n p B \<Longrightarrow> elt (msub A B) = (\<lambda>i j. elt A i j - elt B i j)"
  unfolding msub_def by (rule elt_binop[where h = "(-)"]) simp_all

lemma elt_madd: "is_mat n p A \<Longrightarrow> is_mat n p B \<Longrightarrow> elt (madd A B) = (\<lambda>i j. elt A i j + elt B i j)"
  unfolding madd_def by (rule elt_binop[where h = "(+)"]) simp_all

lemma elt_smul: "is_mat n p A \<Longrightarrow> elt (smul c A) = (\<lambda>i j. c * elt A i j)"
  unfolding smul_def using elt_binop[of n p A A "\<lambda>x y. c * x"] by simp

lemma elt_mneg: "is_mat n p A \<Longrightarrow> elt (mneg A) = (\<lambda>i j. - elt A i j)"
  unfolding mneg_def using elt_binop[of n p A A "\<lambda>x y. - x"] by simp

lemma is_mat_identity: "is_mat p p (identity p)"
  by (simp add: identity_def is_mat_mat_of)

lemma elt_identity: "elt (identity p) = (\<lambda>i j. if i = j \<and> i < p then 1 else 0)"
  by (auto simp: identity_def elt_mat_of fun_eq_iff)

lemma mm_idp_right: "mm p f (idp p) = (\<lambda>i j. if j < p then f i j else 0)"
proof (intro ext)
  fix i j
  have "mm p f (idp p) i j = (\<Sum>l = 0..<p. if l = j then f i l else 0)"
    unfolding mm_def idp_def by (intro sum.cong) auto
  also have "\<dots> = (if j < p then f i j else 0)"
    by (simp add: sum.delta)
  finally show "mm p f (idp p) i j = (if j < p then f i j else 0)" .
qed

lemma mm_idp_left: "mm p (idp p) f = (\<lambda>i j. if i < p then f i j else 0)"
proof (intro ext)
  fix i j
  have "mm p (idp p) f i j = (\<Sum>l = 0..<p. if l = i then f l j else 0)"
    unfolding mm_def idp_def by (intro sum.cong) auto
  also have "\<dots> = (if i < p then f i j else 0)"
    by (simp add: sum.delta)
  finally show "mm p (idp p) f i j = (if i < p then f i j else 0)" .
qed

lemma mm_upper:
  assumes "\<And>i j. j < i \<Longrightarrow> u i j = 0" "\<And>i j. j < i \<Longrightarrow> r i j = 0" "j < i"
  shows "mm p u r i j = 0"
proof -
  have "u i l * r l j = 0" for l
  proof (cases "l < i")
    case True then show ?thesis using assms(1) by simp
  next
    case False
    then have "j < l" using assms(3) by simp
    then show ?thesis using assms(2) by simp
  qed
  then show ?thesis unfolding mm_def by (intro sum.neutral) blast
qed

lemma qr_diff_fun:
  fixes q r x v :: "nat \<Rightarrow> nat \<Rightarrow> real" and n p :: nat
  assumes xr: "mm p x r = idp p"
    and r_up: "\<And>i j. j < i \<Longrightarrow> r i j = 0"
    and q_sup: "\<And>i l. p \<le> l \<Longrightarrow> q i l = 0"
    and v_sup: "\<And>i j. p \<le> j \<Longrightarrow> v i j = 0"
  defines "w \<equiv> mm n (\<lambda>i l. q l i) v"
  defines "d0 \<equiv> mm p w x"
  defines "l \<equiv> \<lambda>i j. if j < i \<and> i < p then d0 i j else 0"
  defines "d \<equiv> \<lambda>i j. l i j - l j i"
  defines "dr \<equiv> \<lambda>i j. if j < i then 0 else w i j - mm p d r i j"
  defines "dq \<equiv> \<lambda>i j. mm p (\<lambda>i j. v i j - mm p q w i j) x i j + mm p q d i j"
  shows "(\<lambda>i j. mm p dq r i j + mm p q dr i j) = v"
proof -
  have w_col: "w i j = 0" if "p \<le> j" for i j
    unfolding w_def mm_def using v_sup[OF that] by simp
  have w_row: "w i j = 0" if "p \<le> i" for i j
    unfolding w_def mm_def using q_sup[OF that] by simp
  have w_id: "mm p w (idp p) = w"
    using w_col by (auto simp: mm_idp_right fun_eq_iff)
  have w_eq: "w = mm p d0 r"
    unfolding d0_def by (simp add: mm_assoc xr w_id)
  have d0_row: "d0 i j = 0" if "p \<le> i" for i j
    unfolding d0_def mm_def using w_row[OF that] by simp
  define u where "u = (\<lambda>i j. d0 i j - d i j)"
  have u_up: "u i j = 0" if "j < i" for i j
    using that d0_row[of i j] by (auto simp: u_def d_def l_def)
  have "mm p u r = (\<lambda>i j. w i j - mm p d r i j)"
    unfolding u_def by (simp add: mm_sub_left w_eq)
  then have low: "w i j - mm p d r i j = 0" if "j < i" for i j
    using mm_upper[of u r j i p, OF u_up r_up that] by (simp add: fun_eq_iff)
  have dr_eq: "dr = (\<lambda>i j. w i j - mm p d r i j)"
    using low by (auto simp: dr_def fun_eq_iff)
  have qw_col: "mm p q w i j = 0" if "p \<le> j" for i j
    unfolding mm_def using w_col[OF that] by simp
  have c_id: "mm p (\<lambda>i j. v i j - mm p q w i j) (idp p) = (\<lambda>i j. v i j - mm p q w i j)"
    using v_sup qw_col by (auto simp: mm_idp_right fun_eq_iff)
  have "mm p dq r = (\<lambda>i j. (v i j - mm p q w i j) + mm p q (mm p d r) i j)"
    unfolding dq_def by (simp add: mm_add_left mm_assoc xr c_id)
  moreover have "mm p q dr = (\<lambda>i j. mm p q w i j - mm p q (mm p d r) i j)"
    unfolding dr_eq by (simp add: mm_sub_right)
  ultimately show ?thesis by (simp add: fun_eq_iff)
qed

lemma sum_split3:
  fixes f :: "nat \<Rightarrow> real"
  assumes "i < p"
  shows "(\<Sum>k = 0..<p. f k) = (\<Sum>k = 0..<i. f k) + f i + (\<Sum>k = Suc i..<p. f k)"
proof -
  have "(\<Sum>k = 0..<p. f k) = (\<Sum>k = 0..<i. f k) + (\<Sum>k = i..<p. f k)"
    using assms by (simp add: sum.atLeastLessThan_concat)
  also have "(\<Sum>k = i..<p. f k) = f i + (\<Sum>k = Suc i..<p. f k)"
    using assms by (simp add: sum.atLeast_Suc_lessThan)
  finally show ?thesis by simp
qed

lemma upper_row_sum:
  fixes r :: "nat \<Rightarrow> nat \<Rightarrow> real"
  assumes up: "\<And>j. j < i \<Longrightarrow> r i j = 0" and i: "i < p"
  shows "(\<Sum>k = 0..<p. r i k * y k) = r i i * y i + (\<Sum>k = Suc i..<p. r i k * y k)"
proof -
  have "(\<Sum>k = 0..<i. r i k * y k) = 0"
    by (intro sum.neutral) (simp add: up)
  then show ?thesis using sum_split3[OF i, of "\<lambda>k. r i k * y k"] by simp
qed

lemma bsol_solves:
  fixes r :: "nat \<Rightarrow> nat \<Rightarrow> real"
  assumes up: "\<And>j. j < i \<Longrightarrow> r i j = 0" and i: "i < p" and d: "r i i \<noteq> 0"
  shows "(\<Sum>k = 0..<p. r i k * bsol r b p k) = b i"
proof -
  have "r i i * bsol r b p i = b i - (\<Sum>k = Suc i..<p. r i k * bsol r b p k)"
    using d by (subst bsol.simps) simp
  then show ?thesis using upper_row_sum[of i r p "bsol r b p", OF up i] by simp
qed

lemma bsol_zero_below:
  fixes r :: "nat \<Rightarrow> nat \<Rightarrow> real"
  assumes b: "\<And>k. j < k \<Longrightarrow> b k = 0"
  shows "j < i \<Longrightarrow> bsol r b p i = 0"
proof (induction "p - i" arbitrary: i rule: less_induct)
  case less
  have "(\<Sum>k = Suc i..<p. r i k * bsol r b p k) = 0"
  proof (intro sum.neutral ballI)
    fix k assume k: "k \<in> {Suc i..<p}"
    then have "p - k < p - i" "j < k" using less.prems by auto
    then have "bsol r b p k = 0" by (rule less.hyps)
    then show "r i k * bsol r b p k = 0" by simp
  qed
  then show ?case using b[OF less.prems] by (subst bsol.simps) simp
qed

lemma upper_injective:
  fixes r :: "nat \<Rightarrow> nat \<Rightarrow> real"
  assumes up: "\<And>i j. j < i \<Longrightarrow> r i j = 0"
    and d: "\<And>i. i < p \<Longrightarrow> r i i \<noteq> 0"
    and z: "\<And>i. i < p \<Longrightarrow> (\<Sum>k = 0..<p. r i k * y k) = 0"
  shows "i < p \<Longrightarrow> y i = 0"
proof (induction "p - i" arbitrary: i rule: less_induct)
  case less
  have "(\<Sum>k = Suc i..<p. r i k * y k) = 0"
  proof (intro sum.neutral ballI)
    fix k assume k: "k \<in> {Suc i..<p}"
    then have "p - k < p - i" "k < p" using less.prems by auto
    then have "y k = 0" by (rule less.hyps)
    then show "r i k * y k = 0" by simp
  qed
  then have "r i i * y i = 0"
    using z[OF less.prems] upper_row_sum[of i r p y, OF up less.prems] by simp
  then show ?case using d[OF less.prems] by simp
qed

lemma rinv_upper: "j < i \<Longrightarrow> rinv r p i j = 0"
  using bsol_zero_below[of j "\<lambda>k. idp p k j" i r p] by (simp add: rinv_def idp_def)

lemma rinv_right:
  fixes r :: "nat \<Rightarrow> nat \<Rightarrow> real"
  assumes up: "\<And>i j. j < i \<Longrightarrow> r i j = 0"
    and d: "\<And>i. i < p \<Longrightarrow> r i i \<noteq> 0"
    and sup: "\<And>i j. p \<le> i \<Longrightarrow> r i j = 0"
  shows "mm p r (rinv r p) = idp p"
proof (intro ext)
  fix i j
  show "mm p r (rinv r p) i j = idp p i j"
  proof (cases "i < p \<and> j < p")
    case True
    have "mm p r (rinv r p) i j = (\<Sum>k = 0..<p. r i k * bsol r (\<lambda>k. idp p k j) p k)"
      unfolding mm_def rinv_def using True by (intro sum.cong) auto
    also have "\<dots> = idp p i j"
      using bsol_solves[of i r p "\<lambda>k. idp p k j"] up d True by simp
    finally show ?thesis .
  next
    case False
    have "r i k * rinv r p k j = 0" for k
      using False sup[of i k] by (auto simp: rinv_def)
    then have "mm p r (rinv r p) i j = 0"
      unfolding mm_def by (intro sum.neutral) blast
    then show ?thesis using False by (auto simp: idp_def)
  qed
qed

lemma rinv_left:
  fixes r :: "nat \<Rightarrow> nat \<Rightarrow> real"
  assumes up: "\<And>i j. j < i \<Longrightarrow> r i j = 0"
    and d: "\<And>i. i < p \<Longrightarrow> r i i \<noteq> 0"
    and sup: "\<And>i j. p \<le> i \<or> p \<le> j \<Longrightarrow> r i j = 0"
  shows "mm p (rinv r p) r = idp p"
proof (intro ext)
  fix i j
  define y where "y = (\<lambda>i j. mm p (rinv r p) r i j - idp p i j)"
  have rx: "mm p r (rinv r p) = idp p"
    using up d sup by (intro rinv_right) auto
  have r_l: "mm p (idp p) r = r" using sup by (auto simp: mm_idp_left fun_eq_iff)
  have r_r: "mm p r (idp p) = r" using sup by (auto simp: mm_idp_right fun_eq_iff)
  have "mm p r y = (\<lambda>i j. mm p r (mm p (rinv r p) r) i j - mm p r (idp p) i j)"
    unfolding y_def by (simp add: mm_sub_right)
  also have "mm p r (mm p (rinv r p) r) = r"
    using mm_assoc[of p p r "rinv r p" r, symmetric] by (simp add: rx r_l)
  finally have ry: "mm p r y = (\<lambda>i j. 0)" by (simp add: r_r)
  have "y i j = 0"
  proof (cases "i < p")
    case True
    have "(\<Sum>k = 0..<p. r a k * y k j) = 0" for a
      using ry by (simp add: mm_def fun_eq_iff)
    then show ?thesis using upper_injective[of r p "\<lambda>k. y k j" i] up d True by simp
  next
    case False
    then show ?thesis by (simp add: y_def mm_def rinv_def idp_def)
  qed
  then show "mm p (rinv r p) r i j = idp p i j" by (simp add: y_def)
qed

lemma upper_triangular_elt:
  assumes "upper_triangular R" "is_mat n p R" "j < i"
  shows "elt R i j = 0"
proof (cases "i < n")
  case True
  then show ?thesis using assms by (simp add: upper_triangular_def list_all_iff is_mat_nrows)
next
  case False
  then show ?thesis using elt_outside[OF assms(2)] by simp
qed

lemma solve_triangular_identity:
  assumes R: "is_mat p p R" and p: "0 < p" and d: "\<And>i. i < p \<Longrightarrow> elt R i i \<noteq> 0"
  shows "\<exists>X. solve_triangular R (identity p) = Inr X \<and> is_mat p p X \<and>
             elt (clean_lower X) = rinv (elt R) p"
proof -
  define X where "X = mat_of p p (\<lambda>i j. bsol (elt R) (\<lambda>k. elt (identity p) k j) p i)"
  have nr: "nrows R = p" using R by (rule is_mat_nrows)
  have nc: "ncols (identity p) = p" using is_mat_identity p by (rule is_mat_ncols)
  have "\<not> list_ex (\<lambda>i. elt R i i = 0) [0..<p]" using d by (simp add: list_ex_iff)
  then have s: "solve_triangular R (identity p) = Inr X"
    by (simp add: solve_triangular_def nr nc X_def)
  have X: "is_mat p p X" unfolding X_def by (rule is_mat_mat_of)
  have "(\<lambda>k. elt (identity p) k j) = (\<lambda>k. idp p k j)" for j
    by (simp add: elt_identity idp_def)
  then have eX: "elt X = rinv (elt R) p"
    by (simp add: X_def elt_mat_of rinv_def fun_eq_iff)
  have "elt (clean_lower X) = rinv (elt R) p"
    using rinv_upper[of _ _ "elt R" p] by (auto simp: elt_clean_lower[OF X] eX fun_eq_iff)
  with s X show ?thesis by blast
qed


text \<open>An upper triangular matrix with a zero on its diagonal has a kernel vector.\<close>

lemma upper_kernel:
  fixes r :: "nat \<Rightarrow> nat \<Rightarrow> real"
  assumes up: "\<And>i j. j < i \<Longrightarrow> r i j = 0"
    and k: "k < p" "r k k = 0"
    and least: "\<And>i. i < k \<Longrightarrow> r i i \<noteq> 0"
  shows "\<exists>x. x k = 1 \<and> (\<forall>i<p. (\<Sum>j = 0..<p. r i j * x j) = 0)"
proof -
  define y where "y = bsol r (\<lambda>i. - r i k) k"
  define x where "x = (\<lambda>j. if j < k then y j else if j = k then 1 else (0::real))"
  have "(\<Sum>j = 0..<p. r i j * x j) = 0" if i: "i < p" for i
  proof -
    have tail: "(\<Sum>j = Suc k..<p. r i j * x j) = 0"
      by (intro sum.neutral) (simp add: x_def)
    have split: "(\<Sum>j = 0..<p. r i j * x j) = (\<Sum>j = 0..<k. r i j * y j) + r i k"
    proof -
      have "(\<Sum>j = 0..<k. r i j * x j) = (\<Sum>j = 0..<k. r i j * y j)"
        by (intro sum.cong) (simp_all add: x_def)
      then show ?thesis
        using sum_split3[OF k(1), of "\<lambda>j. r i j * x j"] tail by (simp add: x_def)
    qed
    show ?thesis
    proof (cases "i < k")
      case True
      have "(\<Sum>j = 0..<k. r i j * y j) = - r i k"
        unfolding y_def using up True least by (intro bsol_solves) auto
      then show ?thesis using split by simp
    next
      case False
      have "(\<Sum>j = 0..<k. r i j * y j) = 0"
        using False by (intro sum.neutral) (simp add: up)
      moreover have "r i k = 0" using False k(2) up[of k i] by (cases "i = k") auto
      ultimately show ?thesis using split by simp
    qed
  qed
  moreover have "x k = 1" by (simp add: x_def)
  ultimately show ?thesis by blast
qed

lemma full_rank_diag:
  assumes A: "is_mat n p A" and n: "0 < n" and p: "0 < p"
    and Q: "is_mat n p Q" and R: "is_mat p p R"
    and up: "upper_triangular R" and qr: "dot Q R = A"
    and rank: "full_column_rank A"
  shows "i < p \<Longrightarrow> elt R i i \<noteq> 0"
proof (rule ccontr)
  assume i: "i < p" and "\<not> elt R i i \<noteq> 0"
  then have ex: "\<exists>k. k < p \<and> elt R k k = 0" by blast
  define k where "k = (LEAST k. k < p \<and> elt R k k = 0)"
  have k: "k < p \<and> elt R k k = 0" unfolding k_def using ex by (rule LeastI_ex)
  have least: "elt R a a \<noteq> 0" if "a < k" for a
  proof
    assume "elt R a a = 0"
    then have "a < p \<and> elt R a a = 0" using that k by simp
    then have "k \<le> a" unfolding k_def by (rule Least_le)
    then show False using that by simp
  qed
  obtain x where x: "x k = 1" "\<And>a. a < p \<Longrightarrow> (\<Sum>j = 0..<p. elt R a j * x j) = 0"
    using upper_kernel[of "elt R" k p] upper_triangular_elt[OF up R] k least by blast
  have ncQ: "ncols Q = p" using Q n by (rule is_mat_ncols)
  have eA: "elt A = mm p (elt Q) (elt R)"
    using elt_dot[OF R, of Q] by (simp add: qr ncQ)
  have "(\<Sum>j = 0..<p. elt A a j * x j) = 0" for a
  proof -
    have "(\<Sum>j = 0..<p. elt A a j * x j) = (\<Sum>j = 0..<p. \<Sum>l = 0..<p. elt Q a l * elt R l j * x j)"
      by (simp add: eA mm_def sum_distrib_right)
    also have "\<dots> = (\<Sum>l = 0..<p. \<Sum>j = 0..<p. elt Q a l * elt R l j * x j)"
      by (rule sum.swap)
    also have "\<dots> = (\<Sum>l = 0..<p. elt Q a l * (\<Sum>j = 0..<p. elt R l j * x j))"
      by (simp add: sum_distrib_left mult.assoc)
    also have "\<dots> = 0"
      by (intro sum.neutral) (simp add: x(2))
    finally show ?thesis .
  qed
  then have "\<forall>j<p. x j = 0"
    using rank by (simp add: full_column_rank_def is_mat_nrows[OF A] is_mat_ncols[OF A n])
  then show False using x(1) k by simp
qed

lemma dot_typed:
  assumes "is_mat n k A" "is_mat k p B" "0 < n" "0 < k"
  shows "is_mat n p (dot A B)" "elt (dot A B) = mm k (elt A) (elt B)"
proof -
  have "nrows A = n" "ncols A = k" "ncols B = p"
    using assms by (simp_all add: is_mat_nrows is_mat_ncols)
  then show "is_mat n p (dot A B)" "elt (dot A B) = mm k (elt A) (elt B)"
    using is_mat_dot[of A B] elt_dot[OF assms(2), of A] by simp_all
qed

lemma transpose_typed:
  assumes "is_mat n p A" "0 < n"
  shows "is_mat p n (transpose_m A)" "elt (transpose_m A) = (\<lambda>i j. elt A j i)"
  using assms is_mat_transpose[of A] elt_transpose[of n p A]
  by (simp_all add: is_mat_nrows is_mat_ncols)

lemma msub_typed:
  assumes "is_mat n p A" "is_mat n p B" "0 < n"
  shows "is_mat n p (msub A B)" "elt (msub A B) = (\<lambda>i j. elt A i j - elt B i j)"
  using assms is_mat_msub[of A B] elt_msub[of n p A B]
  by (simp_all add: is_mat_nrows is_mat_ncols)

lemma madd_typed:
  assumes "is_mat n p A" "is_mat n p B" "0 < n"
  shows "is_mat n p (madd A B)" "elt (madd A B) = (\<lambda>i j. elt A i j + elt B i j)"
  using assms is_mat_madd[of A B] elt_madd[of n p A B]
  by (simp_all add: is_mat_nrows is_mat_ncols)

lemma smul_typed:
  assumes "is_mat n p A" "0 < n"
  shows "is_mat n p (smul c A)" "elt (smul c A) = (\<lambda>i j. c * elt A i j)"
  using assms is_mat_smul[of A c] elt_smul[of n p A c]
  by (simp_all add: is_mat_nrows is_mat_ncols)

lemma mneg_typed:
  assumes "is_mat n p A" "0 < n"
  shows "is_mat n p (mneg A)" "elt (mneg A) = (\<lambda>i j. - elt A i j)"
  using assms is_mat_mneg[of A] elt_mneg[of n p A]
  by (simp_all add: is_mat_nrows is_mat_ncols)

lemma select_lower_typed:
  assumes "is_mat p p M"
  shows "is_mat p p (select_lower M)"
    "elt (select_lower M) = (\<lambda>i j. if j < i \<and> i < p then elt M i j else 0)"
  using assms is_mat_select_lower[of M] elt_select_lower[of M]
  by (simp_all add: is_mat_nrows)

lemma Stiefel_diff_QR_entries:
  fixes n p :: nat
  assumes A0: "is_mat n p A0" and V: "is_mat n p V" and p: "0 < p" and pn: "p \<le> n"
    and qr: "qr lib A0 = (Q, R)" and Q: "is_mat n p Q" and R: "is_mat p p R"
    and d: "\<And>i. i < p \<Longrightarrow> elt R i i \<noteq> 0"
  defines "x \<equiv> rinv (elt R) p"
  defines "w \<equiv> mm n (\<lambda>i l. elt Q l i) (elt V)"
  defines "l \<equiv> \<lambda>i j. if j < i \<and> i < p then mm p w x i j else 0"
  defines "dd \<equiv> \<lambda>i j. l i j - l j i"
  shows "\<exists>dQ dR. Stiefel_diff_QR lib A0 V = Inr (Q, dQ, R, dR) \<and>
           is_mat n p dQ \<and> is_mat p p dR \<and>
           elt dQ = (\<lambda>i j. mm p (\<lambda>i j. elt V i j - mm p (elt Q) w i j) x i j + mm p (elt Q) dd i j) \<and>
           elt dR = (\<lambda>i j. if j < i then 0 else w i j - mm p dd (elt R) i j)"
proof -
  have n: "0 < n" using p pn by simp
  obtain X where X: "solve_triangular R (identity p) = Inr X" "is_mat p p X"
      "elt (clean_lower X) = x"
    using solve_triangular_identity[OF R p d] unfolding x_def by blast
  define Rinv where "Rinv = clean_lower X"
  define QTV where "QTV = dot (transpose_m Q) V"
  define D where "D = msub (select_lower (dot QTV Rinv)) (transpose_m (select_lower (dot QTV Rinv)))"
  define dR where "dR = clean_lower (msub QTV (dot D R))"
  define dQ where "dQ = madd (dot (msub V (dot Q QTV)) Rinv) (dot Q D)"
  have Rinv: "is_mat p p Rinv" "elt Rinv = x"
    using X by (simp_all add: Rinv_def is_mat_clean_lower)
  note QT = transpose_typed[OF Q n]
  note QTV' = dot_typed[OF QT(1) V p n]
  have QTV: "is_mat p p QTV" "elt QTV = w"
    using QTV' by (simp_all add: QTV_def QT(2) w_def)
  note D0 = dot_typed[OF QTV(1) Rinv(1) p p]
  note L = select_lower_typed[OF D0(1)]
  note LT = transpose_typed[OF L(1) p]
  note D' = msub_typed[OF L(1) LT(1) p]
  have D: "is_mat p p D" "elt D = dd"
    using D' by (simp_all add: D_def LT(2) L(2) D0(2) QTV(2) Rinv(2) dd_def l_def cong: if_cong)
  note DR = dot_typed[OF D(1) R p p]
  note dR1 = msub_typed[OF QTV(1) DR(1) p]
  have dR: "is_mat p p dR"
      "elt dR = (\<lambda>i j. if j < i then 0 else w i j - mm p dd (elt R) i j)"
    using dR1 by (simp_all add: dR_def is_mat_clean_lower elt_clean_lower[OF dR1(1)] DR(2) QTV(2) D(2) cong: if_cong)
  note QW = dot_typed[OF Q QTV(1) n p]
  note C = msub_typed[OF V QW(1) n]
  note CR = dot_typed[OF C(1) Rinv(1) n p]
  note QD = dot_typed[OF Q D(1) n p]
  note dQ' = madd_typed[OF CR(1) QD(1) n]
  have dQ: "is_mat n p dQ"
      "elt dQ = (\<lambda>i j. mm p (\<lambda>i j. elt V i j - mm p (elt Q) w i j) x i j + mm p (elt Q) dd i j)"
    using dQ' by (simp_all add: dQ_def CR(2) C(2) QW(2) QTV(2) Rinv(2) QD(2) D(2))
  have "Stiefel_diff_QR lib A0 V = Inr (Q, dQ, R, dR)"
    using is_mat_ncols[OF A0 n]
    by (simp add: Stiefel_diff_QR_def Let_def qr X(1) Rinv_def QTV_def D_def dR_def dQ_def)
  with dQ dR show ?thesis by blast
qed

lemma mm_add_right: "mm k f (\<lambda>i j. g i j + h i j) = (\<lambda>i j. mm k f g i j + mm k f h i j)"
  by (simp add: mm_def fun_eq_iff distrib_left sum.distrib)

lemma mm_zero_left: "mm k (\<lambda>i j. 0) f = (\<lambda>i j. 0)"
  by (simp add: mm_def)

lemma qr_tangent_fun:
  fixes q x v :: "nat \<Rightarrow> nat \<Rightarrow> real" and n p :: nat
  assumes qq: "mm n (\<lambda>i l. q l i) q = idp p"
    and q_sup: "\<And>i l. p \<le> l \<Longrightarrow> q i l = 0"
  defines "w \<equiv> mm n (\<lambda>i l. q l i) v"
  defines "l \<equiv> \<lambda>i j. if j < i \<and> i < p then mm p w x i j else 0"
  defines "d \<equiv> \<lambda>i j. l i j - l j i"
  defines "dq \<equiv> \<lambda>i j. mm p (\<lambda>i j. v i j - mm p q w i j) x i j + mm p q d i j"
  shows "mm n (\<lambda>i l. q l i) dq = d"
proof -
  let ?qT = "\<lambda>i l. q l i"
  have w_row: "w i j = 0" if "p \<le> i" for i j
    unfolding w_def mm_def using q_sup[OF that] by simp
  have d_row: "d i j = 0" if "p \<le> i" for i j
    using that by (auto simp: d_def l_def)
  have "mm n ?qT (mm p q w) = mm p (idp p) w"
    using mm_assoc[of p n ?qT q w] by (simp add: qq)
  also have "\<dots> = w" using w_row by (auto simp: mm_idp_left fun_eq_iff)
  finally have 1: "mm n ?qT (\<lambda>i j. v i j - mm p q w i j) = (\<lambda>i j. 0)"
    by (simp add: mm_sub_right w_def[symmetric])
  have "mm n ?qT (mm p q d) = mm p (idp p) d"
    using mm_assoc[of p n ?qT q d] by (simp add: qq)
  also have "\<dots> = d" using d_row by (auto simp: mm_idp_left fun_eq_iff)
  finally have 2: "mm n ?qT (mm p q d) = d" .
  have "mm n ?qT dq = (\<lambda>i j. mm n ?qT (mm p (\<lambda>i j. v i j - mm p q w i j) x) i j + mm n ?qT (mm p q d) i j)"
    unfolding dq_def by (simp add: mm_add_right)
  also have "mm n ?qT (mm p (\<lambda>i j. v i j - mm p q w i j) x) = (\<lambda>i j. 0)"
    using mm_assoc[of p n ?qT "\<lambda>i j. v i j - mm p q w i j" x] by (simp add: 1 mm_zero_left)
  finally show ?thesis by (simp add: 2)
qed

section \<open>The example data\<close>

lemma sum_upt_2: "(\<Sum>j = 0..<(2::nat). f j) = f 0 + (f 1 :: real)"
  by (simp add: numeral_2_eq_2)

lemma sum_upt_3: "(\<Sum>j = 0..<(3::nat). f j) = f 0 + f 1 + (f 2 :: real)"
  by (simp add: eval_nat_numeral)

lemma A_ex_shape: "is_mat 3 2 A_ex"
  by (simp add: is_mat_def A_ex_def)

lemma V_ex_shape: "is_mat 3 2 V_ex"
  by (simp add: is_mat_def V_ex_def)

lemma ex_thin_qr: "thin_qr A_ex Q_ex R_ex"
  by (simp add: thin_qr_def A_ex_def Q_ex_def R_ex_def is_mat_def nrows_def ncols_def
      dot_def transpose_m_def identity_def mat_of_def elt_def upper_triangular_def upt_conv_Cons)

lemma A_ex_full_rank: "full_column_rank A_ex"
  unfolding full_column_rank_def
proof (intro allI impI)
  fix x :: "nat \<Rightarrow> real" and j
  assume h: "\<forall>i<nrows A_ex. (\<Sum>j = 0..<ncols A_ex. elt A_ex i j * x j) = 0"
    and j: "j < ncols A_ex"
  have sh: "nrows A_ex = 3" "ncols A_ex = 2"
    by (simp_all add: nrows_def ncols_def A_ex_def)
  from h have "(\<Sum>j = 0..<2. elt A_ex 0 j * x j) = 0" "(\<Sum>j = 0..<2. elt A_ex 1 j * x j) = 0"
    by (simp_all add: sh)
  then have "3 * x 0 + 4 * x 1 = 0" "4 * x 0 + 19/2 * x 1 = 0"
    by (simp_all add: sum_upt_2 A_ex_def elt_def)
  then have "x 0 = 0 \<and> x 1 = 0" by simp
  moreover have "j = 0 \<or> j = 1" using j sh by auto
  ultimately show "x j = 0" by auto
qed

section \<open>The claims about the QR derivative\<close>

text \<open>
  C1. For an array \<open>A0\<close> of full column rank and a direction \<open>V\<close> of the same shape,
  \<open>Stiefel_diff_QR\<close> returns, and its outputs satisfy \<open>dQ R + Q dR = V\<close> exactly. The QR
  routine is assumed to return a thin QR factorisation of \<open>A0\<close>.
\<close>

theorem Stiefel_diff_QR_reconstruction:
  assumes A0: "is_mat n p A0" and V: "is_mat n p V" and p: "0 < p" and pn: "p \<le> n"
    and qr: "qr lib A0 = (Q, R)" and thin: "thin_qr A0 Q R"
    and rank: "full_column_rank A0"
  shows "\<exists>dQ dR. Stiefel_diff_QR lib A0 V = Inr (Q, dQ, R, dR) \<and>
           madd (dot dQ R) (dot Q dR) = V"
proof -
  have n: "0 < n" using p pn by simp
  have sh: "nrows A0 = n" "ncols A0 = p"
    using A0 n by (simp_all add: is_mat_nrows is_mat_ncols)
  from thin have Q: "is_mat n p Q" and R: "is_mat p p R"
    and up: "upper_triangular R" and QR: "dot Q R = A0"
    by (simp_all add: thin_qr_def sh)
  note r_up = upper_triangular_elt[OF up R]
  have d: "elt R i i \<noteq> 0" if "i < p" for i
    using full_rank_diag[OF A0 n p Q R up QR rank that] .
  obtain dQ dR where res: "Stiefel_diff_QR lib A0 V = Inr (Q, dQ, R, dR)"
    and dQ: "is_mat n p dQ" and dR: "is_mat p p dR"
    and edQ: "elt dQ = (\<lambda>i j. mm p (\<lambda>i j. elt V i j - mm p (elt Q) (mm n (\<lambda>i l. elt Q l i) (elt V)) i j) (rinv (elt R) p) i j
                + mm p (elt Q) (\<lambda>i j. (if j < i \<and> i < p then mm p (mm n (\<lambda>i l. elt Q l i) (elt V)) (rinv (elt R) p) i j else 0)
                    - (if i < j \<and> j < p then mm p (mm n (\<lambda>i l. elt Q l i) (elt V)) (rinv (elt R) p) j i else 0)) i j)"
    and edR: "elt dR = (\<lambda>i j. if j < i then 0 else mm n (\<lambda>i l. elt Q l i) (elt V) i j
                - mm p (\<lambda>i j. (if j < i \<and> i < p then mm p (mm n (\<lambda>i l. elt Q l i) (elt V)) (rinv (elt R) p) i j else 0)
                    - (if i < j \<and> j < p then mm p (mm n (\<lambda>i l. elt Q l i) (elt V)) (rinv (elt R) p) j i else 0)) (elt R) i j)"
    using Stiefel_diff_QR_entries[OF A0 V p pn qr Q R d] by blast
  have xr: "mm p (rinv (elt R) p) (elt R) = idp p"
    using r_up d elt_outside[OF R] by (intro rinv_left) auto
  have fun_eq: "(\<lambda>i j. mm p (elt dQ) (elt R) i j + mm p (elt Q) (elt dR) i j) = elt V"
    unfolding edQ edR
    using elt_outside[OF Q] elt_outside[OF V]
    by (intro qr_diff_fun[OF xr r_up]) auto
  note P1 = dot_typed[OF dQ R n p]
  note P2 = dot_typed[OF Q dR n p]
  note S = madd_typed[OF P1(1) P2(1) n]
  have "madd (dot dQ R) (dot Q dR) = V"
    using S(1) V by (rule mat_eqI) (simp add: S(2) P1(2) P2(2) fun_eq)
  with res show ?thesis by blast
qed

theorem Stiefel_diff_QR_reconstruction_witness:
  "is_mat 3 2 A_ex \<and> is_mat 3 2 V_ex \<and> qr lib_ex A_ex = (Q_ex, R_ex) \<and> thin_qr A_ex Q_ex R_ex \<and>
   full_column_rank A_ex \<and>
   (\<exists>dQ dR. Stiefel_diff_QR lib_ex A_ex V_ex = Inr (Q_ex, dQ, R_ex, dR) \<and>
      madd (dot dQ R_ex) (dot Q_ex dR) = V_ex)"
proof -
  have q: "qr lib_ex A_ex = (Q_ex, R_ex)" by (simp add: lib_ex_def)
  show ?thesis
    using Stiefel_diff_QR_reconstruction[OF A_ex_shape V_ex_shape _ _ q ex_thin_qr A_ex_full_rank]
      A_ex_shape V_ex_shape q ex_thin_qr A_ex_full_rank by simp
qed

text \<open>
  C4. Under the same assumptions the outputs \<open>Q\<close> and \<open>dQ\<close> satisfy
  \<open>Q\<^sup>T dQ + (Q\<^sup>T dQ)\<^sup>T = 0\<close>: the matrix \<open>Q\<^sup>T dQ\<close> is skew-symmetric.
\<close>

theorem Stiefel_diff_QR_tangent:
  assumes A0: "is_mat n p A0" and V: "is_mat n p V" and p: "0 < p" and pn: "p \<le> n"
    and qr: "qr lib A0 = (Q, R)" and thin: "thin_qr A0 Q R"
    and rank: "full_column_rank A0"
  shows "\<exists>dQ dR. Stiefel_diff_QR lib A0 V = Inr (Q, dQ, R, dR) \<and>
           madd (dot (transpose_m Q) dQ) (transpose_m (dot (transpose_m Q) dQ)) = zeros p p"
proof -
  have n: "0 < n" using p pn by simp
  have sh: "nrows A0 = n" "ncols A0 = p"
    using A0 n by (simp_all add: is_mat_nrows is_mat_ncols)
  from thin have Q: "is_mat n p Q" and R: "is_mat p p R"
    and up: "upper_triangular R" and QR: "dot Q R = A0"
    and QQ: "dot (transpose_m Q) Q = identity p"
    by (simp_all add: thin_qr_def sh)
  have d: "elt R i i \<noteq> 0" if "i < p" for i
    using full_rank_diag[OF A0 n p Q R up QR rank that] .
  obtain dQ dR where res: "Stiefel_diff_QR lib A0 V = Inr (Q, dQ, R, dR)"
    and dQ: "is_mat n p dQ"
    and edQ: "elt dQ = (\<lambda>i j. mm p (\<lambda>i j. elt V i j - mm p (elt Q) (mm n (\<lambda>i l. elt Q l i) (elt V)) i j) (rinv (elt R) p) i j
                + mm p (elt Q) (\<lambda>i j. (if j < i \<and> i < p then mm p (mm n (\<lambda>i l. elt Q l i) (elt V)) (rinv (elt R) p) i j else 0)
                    - (if i < j \<and> j < p then mm p (mm n (\<lambda>i l. elt Q l i) (elt V)) (rinv (elt R) p) j i else 0)) i j)"
    using Stiefel_diff_QR_entries[OF A0 V p pn qr Q R d] by blast
  note QT = transpose_typed[OF Q n]
  note QTQ = dot_typed[OF QT(1) Q p n]
  have qq: "mm n (\<lambda>i l. elt Q l i) (elt Q) = idp p"
    using QTQ(2) by (simp add: QQ QT(2) elt_identity idp_def)
  note G = dot_typed[OF QT(1) dQ p n]
  have eG: "elt (dot (transpose_m Q) dQ) =
      (\<lambda>i j. (if j < i \<and> i < p then mm p (mm n (\<lambda>i l. elt Q l i) (elt V)) (rinv (elt R) p) i j else 0)
                    - (if i < j \<and> j < p then mm p (mm n (\<lambda>i l. elt Q l i) (elt V)) (rinv (elt R) p) j i else 0))"
    unfolding G(2) QT(2) edQ
    using elt_outside[OF Q] by (intro qr_tangent_fun[OF qq]) auto
  note GT = transpose_typed[OF G(1) p]
  note S = madd_typed[OF G(1) GT(1) p]
  have "madd (dot (transpose_m Q) dQ) (transpose_m (dot (transpose_m Q) dQ)) = zeros p p"
    using S(1) is_mat_zeros by (rule mat_eqI) (simp add: S(2) GT(2) eG elt_zeros)
  with res show ?thesis by blast
qed

theorem Stiefel_diff_QR_tangent_witness:
  "is_mat 3 2 A_ex \<and> is_mat 3 2 V_ex \<and> qr lib_ex A_ex = (Q_ex, R_ex) \<and> thin_qr A_ex Q_ex R_ex \<and>
   full_column_rank A_ex \<and>
   (\<exists>dQ dR. Stiefel_diff_QR lib_ex A_ex V_ex = Inr (Q_ex, dQ, R_ex, dR) \<and>
      madd (dot (transpose_m Q_ex) dQ) (transpose_m (dot (transpose_m Q_ex) dQ)) = zeros 2 2)"
proof -
  have q: "qr lib_ex A_ex = (Q_ex, R_ex)" by (simp add: lib_ex_def)
  show ?thesis
    using Stiefel_diff_QR_tangent[OF A_ex_shape V_ex_shape _ _ q ex_thin_qr A_ex_full_rank]
      A_ex_shape V_ex_shape q ex_thin_qr A_ex_full_rank by simp
qed

section \<open>Blocks and the Stiefel exponential derivative\<close>

lemma concatenate1_typed:
  assumes "is_mat n p A" "is_mat n q B"
  shows "is_mat n (p + q) (concatenate1 A B)"
    "elt (concatenate1 A B) = (\<lambda>i j. if j < p then elt A i j else elt B i (j - p))"
proof -
  show "is_mat n (p + q) (concatenate1 A B)"
    using assms by (auto simp: is_mat_def concatenate1_def list_all_length)
  show "elt (concatenate1 A B) = (\<lambda>i j. if j < p then elt A i j else elt B i (j - p))"
  proof (intro ext)
    fix i j
    show "elt (concatenate1 A B) i j = (if j < p then elt A i j else elt B i (j - p))"
    proof (cases "i < n")
      case True
      then have "length (A ! i) = p" "length (B ! i) = q" "i < length A" "i < length B"
        using assms by (simp_all add: is_mat_def list_all_length)
      then show ?thesis
        by (auto simp: elt_def concatenate1_def nth_append)
    next
      case False
      then show ?thesis using assms by (simp add: elt_def concatenate1_def is_mat_def)
    qed
  qed
qed

lemma concatenate0_typed:
  assumes "is_mat n p A" "is_mat m p B"
  shows "is_mat (n + m) p (concatenate0 A B)"
    "elt (concatenate0 A B) = (\<lambda>i j. if i < n then elt A i j else elt B (i - n) j)"
proof -
  show "is_mat (n + m) p (concatenate0 A B)"
    using assms by (auto simp: is_mat_def concatenate0_def)
  show "elt (concatenate0 A B) = (\<lambda>i j. if i < n then elt A i j else elt B (i - n) j)"
    using assms by (auto simp: fun_eq_iff elt_def concatenate0_def nth_append is_mat_def)
qed

lemma concat_block2:
  assumes "is_mat p p A" "is_mat p p B" "is_mat p p C" "is_mat p p D"
  shows "concatenate0 (concatenate1 A B) (concatenate1 C D) = block2 p A B C D"
proof -
  note u = concatenate1_typed[OF assms(1,2)]
  note l = concatenate1_typed[OF assms(3,4)]
  note a = concatenate0_typed[OF u(1) l(1)]
  have "is_mat (2 * p) (2 * p) (concatenate0 (concatenate1 A B) (concatenate1 C D))"
    using a(1) by (simp add: mult_2)
  moreover have "is_mat (2 * p) (2 * p) (block2 p A B C D)"
    by (simp add: block2_def is_mat_mat_of)
  ultimately show ?thesis
    by (rule mat_eqI) (simp add: a(2) u(2) l(2) block2_def elt_mat_of)
qed

lemma nrows_slice_le: "nrows (slice E r0 r1 c0 c1) \<le> r1 - r0"
  by (simp add: nrows_def slice_def)

lemma slice_all_rows: "nrows E \<le> m \<Longrightarrow> slice E 0 (nrows E) c0 c1 = slice E 0 m c0 c1"
  by (simp add: slice_def nrows_def)

lemma nrows_diff_expm: "nrows (fst (diff_expm lib M dM)) \<le> nrows M" "nrows (snd (diff_expm lib M dM)) \<le> nrows M"
  by (simp_all add: diff_expm_def Let_def nrows_def slice_def)

lemma Stiefel_diff_QR_Inr:
  assumes "Stiefel_diff_QR lib A0 V = Inr (Q, dQ, R, dR)"
  shows "qr lib A0 = (Q, R)" "is_mat (ncols Q) (ncols (dot (transpose_m Q) V)) dR"
proof -
  obtain Q' R' where q: "qr lib A0 = (Q', R')" by (cases "qr lib A0")
  from assms obtain X where "solve_triangular R' (identity (ncols A0)) = Inr X"
    by (auto simp: Stiefel_diff_QR_def Let_def q split: sum.splits)
  with assms have e: "Q = Q'" "R = R'"
    and dR: "dR = clean_lower (msub (dot (transpose_m Q') V)
        (dot (msub (select_lower (dot (dot (transpose_m Q') V) (clean_lower X)))
            (transpose_m (select_lower (dot (dot (transpose_m Q') V) (clean_lower X))))) R'))"
    by (auto simp: Stiefel_diff_QR_def Let_def q)
  show "qr lib A0 = (Q, R)" using q e by simp
  have "is_mat (nrows (dot (transpose_m Q) V)) (ncols (dot (transpose_m Q) V)) dR"
    unfolding dR e by (intro is_mat_clean_lower is_mat_msub)
  then show "is_mat (ncols Q) (ncols (dot (transpose_m Q) V)) dR"
    by (simp add: dot_def nrows_mat_of transpose_m_def)
qed

lemma Stiefel_diff_exp_refine:
  fixes n p :: nat
  assumes U: "is_mat n p U" and D: "is_mat n p Delta" and V: "is_mat n p V"
    and n: "0 < n" and p: "0 < p"
  defines "A0 \<equiv> skew (dot (transpose_m U) Delta)"
  defines "dA0 \<equiv> skew (dot (transpose_m U) V)"
  assumes res: "Stiefel_diff_QR lib (msub Delta (dot U A0)) (msub V (dot U dA0)) = Inr (Q, dQ, R, dR)"
    and Q: "is_mat n p Q" and R: "is_mat p p R"
    and a: "alpha \<noteq> - 1"
  shows "Stiefel_diff_exp lib U Delta V alpha =
     Inr (if \<bar>alpha\<bar> > 1 / 10 ^ 10 \<and> \<bar>alpha + 1\<bar> > 1 / 10 ^ 10
          then general_combination p U Q dQ
                 (exp_blocks lib p (1 / (alpha + 1)) A0 dA0 R dR)
                 (diff_expm lib (smul (alpha / (alpha + 1)) A0) (smul (alpha / (alpha + 1)) dA0))
          else canonical_combination p U Q dQ
                 (exp_blocks lib p (1 / (alpha + 1)) A0 dA0 R dR))"
proof -
  define v where "v = 1 / (alpha + 1)"
  have sh: "nrows U = n" "ncols U = p"
    using U n by (simp_all add: is_mat_nrows is_mat_ncols)
  note UT = transpose_typed[OF U n]
  note B = dot_typed[OF UT(1) D p n]
  note BT = transpose_typed[OF B(1) p]
  note S = msub_typed[OF B(1) BT(1) p]
  note A0' = smul_typed[OF S(1) p, of "1/2"]
  have A0: "is_mat p p A0" using A0'(1) by (simp add: A0_def skew_def)
  note dB = dot_typed[OF UT(1) V p n]
  note dBT = transpose_typed[OF dB(1) p]
  note dS = msub_typed[OF dB(1) dBT(1) p]
  note dA0' = smul_typed[OF dS(1) p, of "1/2"]
  have dA0: "is_mat p p dA0" using dA0'(1) by (simp add: dA0_def skew_def)
  note UdA = dot_typed[OF U dA0 n p]
  note Y0 = msub_typed[OF V UdA(1) n]
  note QT = transpose_typed[OF Q n]
  note QTY = dot_typed[OF QT(1) Y0(1) p n]
  have dR: "is_mat p p dR"
    using Stiefel_diff_QR_Inr(2)[OF res] is_mat_ncols[OF Q n] is_mat_ncols[OF QTY(1) p] by simp
  note vA = smul_typed[OF A0 p, of v]
  note vdA = smul_typed[OF dA0 p, of v]
  note RT = transpose_typed[OF R p]
  note nRT = mneg_typed[OF RT(1) p]
  note dRT = transpose_typed[OF dR p]
  note ndRT = mneg_typed[OF dRT(1) p]
  have M: "concatenate0 (concatenate1 (smul v A0) (mneg (transpose_m R))) (concatenate1 R (zeros p p))
      = block2 p (smul v A0) (mneg (transpose_m R)) R (zeros p p)"
    by (rule concat_block2[OF vA(1) nRT(1) R is_mat_zeros])
  have dM: "concatenate0 (concatenate1 (smul v dA0) (mneg (transpose_m dR))) (concatenate1 dR (zeros p p))
      = block2 p (smul v dA0) (mneg (transpose_m dR)) dR (zeros p p)"
    by (rule concat_block2[OF vdA(1) ndRT(1) dR is_mat_zeros])
  define Mb where "Mb = block2 p (smul v A0) (mneg (transpose_m R)) R (zeros p p)"
  define dMb where "dMb = block2 p (smul v dA0) (mneg (transpose_m dR)) dR (zeros p p)"
  have nM: "nrows Mb = 2 * p" by (simp add: Mb_def block2_def nrows_mat_of)
  obtain E dE where E: "diff_expm lib Mb dMb = (E, dE)" by (cases "diff_expm lib Mb dMb")
  have "nrows E \<le> 2 * p" "nrows dE \<le> 2 * p"
    using nrows_diff_expm[of lib Mb dMb] by (simp_all add: E nM)
  then have sl: "slice E 0 (nrows E) 0 p = slice E 0 (2 * p) 0 p"
      "slice dE 0 (nrows dE) 0 p = slice dE 0 (2 * p) 0 p"
    by (simp_all add: slice_all_rows)
  have blocks: "exp_blocks lib p (1 / (alpha + 1)) A0 dA0 R dR = (slice E 0 (2 * p) 0 p, slice dE 0 (2 * p) 0 p)"
    by (simp add: exp_blocks_def Let_def v_def[symmetric] Mb_def[symmetric] dMb_def[symmetric] E)
  have a1: "alpha + 1 \<noteq> 0" using a by simp
  show ?thesis
    unfolding blocks
    using res
    by (simp add: Stiefel_diff_exp_def Let_def sh A0_def[unfolded skew_def, symmetric]
        dA0_def[unfolded skew_def, symmetric] py_div_def a1 v_def[symmetric] M dM
        Mb_def[symmetric] dMb_def[symmetric] E sl canonical_combination_def general_combination_def
        split: prod.splits)
qed

lemma Stiefel_diff_QR_returns:
  assumes A0: "is_mat n p A0" and V: "is_mat n p V" and p: "0 < p" and pn: "p \<le> n"
    and qr: "qr lib A0 = (Q, R)" and thin: "thin_qr A0 Q R"
    and rank: "full_column_rank A0"
  shows "\<exists>dQ dR. Stiefel_diff_QR lib A0 V = Inr (Q, dQ, R, dR)"
proof -
  have n: "0 < n" using p pn by simp
  have sh: "nrows A0 = n" "ncols A0 = p"
    using A0 n by (simp_all add: is_mat_nrows is_mat_ncols)
  from thin have Q: "is_mat n p Q" and R: "is_mat p p R"
    and up: "upper_triangular R" and QR: "dot Q R = A0"
    by (simp_all add: thin_qr_def sh)
  have d: "elt R i i \<noteq> 0" if "i < p" for i
    using full_rank_diag[OF A0 n p Q R up QR rank that] .
  show ?thesis using Stiefel_diff_QR_entries[OF A0 V p pn qr Q R d] by blast
qed

text \<open>The outcome of \<open>Stiefel_diff_exp\<close> once the QR step has returned.\<close>

lemma Stiefel_diff_exp_outcome:
  assumes "Stiefel_diff_QR lib
      (msub Delta (dot U (skew (dot (transpose_m U) Delta))))
      (msub V (dot U (skew (dot (transpose_m U) V)))) = Inr r"
  shows "if alpha = - 1 then Stiefel_diff_exp lib U Delta V alpha = Inl ZeroDivisionError
         else (\<exists>d. Stiefel_diff_exp lib U Delta V alpha = Inr d)"
  using assms
  by (cases r) (auto simp: Stiefel_diff_exp_def Let_def skew_def py_div_def split: prod.splits)

lemma Stiefel_diff_exp_QR_error:
  assumes "Stiefel_diff_QR lib
      (msub Delta (dot U (skew (dot (transpose_m U) Delta))))
      (msub V (dot U (skew (dot (transpose_m U) V)))) = Inl e"
  shows "Stiefel_diff_exp lib U Delta V alpha = Inl e"
  using assms by (simp add: Stiefel_diff_exp_def Let_def skew_def)

lemma U_ex_shape: "is_mat 3 2 U_ex"
  by (simp add: is_mat_def U_ex_def)

lemma Delta_ex_shape: "is_mat 3 2 Delta_ex"
  by (simp add: is_mat_def Delta_ex_def)

lemma Q_ex_shape: "is_mat 3 2 Q_ex"
  by (simp add: is_mat_def Q_ex_def)

lemma R_ex_shape: "is_mat 2 2 R_ex"
  by (simp add: is_mat_def R_ex_def)

lemma UT_Delta_ex: "dot (transpose_m U_ex) Delta_ex = [[3, 5], [3, 19/2]]"
  by (simp add: U_ex_def Delta_ex_def dot_def transpose_m_def nrows_def ncols_def mat_of_def
      elt_def upt_conv_Cons)

lemma Delta_ex_not_skew: "\<not> is_skew (dot (transpose_m U_ex) Delta_ex)"
  unfolding UT_Delta_ex
  by (simp add: is_skew_def mneg_def transpose_m_def nrows_def ncols_def mat_of_def
      elt_def upt_conv_Cons)

lemma X0_ex: "msub Delta_ex (dot U_ex (skew (dot (transpose_m U_ex) Delta_ex))) = A_ex"
  unfolding UT_Delta_ex
  by (simp add: U_ex_def Delta_ex_def A_ex_def skew_def smul_def msub_def dot_def transpose_m_def
      nrows_def ncols_def mat_of_def elt_def upt_conv_Cons)

lemma Y0_ex_shape: "is_mat 3 2 (msub V_ex (dot U_ex (skew (dot (transpose_m U_ex) V_ex))))"
proof -
  have "nrows V_ex = 3" "ncols V_ex = 2" by (simp_all add: nrows_def ncols_def V_ex_def)
  then show ?thesis
    using is_mat_msub[of V_ex "dot U_ex (skew (dot (transpose_m U_ex) V_ex))"] by simp
qed

lemma ex_QR_step:
  "\<exists>dQ dR. Stiefel_diff_QR lib_ex
      (msub Delta_ex (dot U_ex (skew (dot (transpose_m U_ex) Delta_ex))))
      (msub V_ex (dot U_ex (skew (dot (transpose_m U_ex) V_ex)))) = Inr (Q_ex, dQ, R_ex, dR)"
proof -
  have q: "qr lib_ex A_ex = (Q_ex, R_ex)" by (simp add: lib_ex_def)
  show ?thesis
    unfolding X0_ex
    using Stiefel_diff_QR_returns[OF A_ex_shape Y0_ex_shape _ _ q ex_thin_qr A_ex_full_rank]
    by simp
qed













lemma U_ex_orthonormal: "dot (transpose_m U_ex) U_ex = identity 2"
  by (simp add: U_ex_def dot_def transpose_m_def identity_def nrows_def ncols_def mat_of_def
      elt_def upt_conv_Cons)



section \<open>The claims about the Stiefel exponential derivative\<close>




text \<open>
  C9. An input whose \<open>U\<^sup>T Delta\<close> is not skew-symmetric is not rejected: the QR step, the
  block matrices and the secondary exponential are all built from \<open>A0 = skew (U\<^sup>T Delta)\<close>
  and \<open>dA0 = skew (U\<^sup>T V)\<close>, and the result is the combination formula of those.
\<close>

theorem Stiefel_diff_exp_symmetrizes:
  assumes "is_mat n p U" and "is_mat n p Delta" and "is_mat n p V" and "0 < n" and "0 < p"
    and "Stiefel_diff_QR lib
          (msub Delta (dot U (skew (dot (transpose_m U) Delta))))
          (msub V (dot U (skew (dot (transpose_m U) V)))) = Inr (Q, dQ, R, dR)"
    and "is_mat n p Q" and "is_mat p p R"
    and "alpha \<noteq> - 1"
    and "\<not> is_skew (dot (transpose_m U) Delta)"
  shows "Stiefel_diff_exp lib U Delta V alpha =
     Inr (if \<bar>alpha\<bar> > 1 / 10 ^ 10 \<and> \<bar>alpha + 1\<bar> > 1 / 10 ^ 10
          then general_combination p U Q dQ
                 (exp_blocks lib p (1 / (alpha + 1))
                    (skew (dot (transpose_m U) Delta)) (skew (dot (transpose_m U) V)) R dR)
                 (diff_expm lib (smul (alpha / (alpha + 1)) (skew (dot (transpose_m U) Delta)))
                    (smul (alpha / (alpha + 1)) (skew (dot (transpose_m U) V))))
          else canonical_combination p U Q dQ
                 (exp_blocks lib p (1 / (alpha + 1))
                    (skew (dot (transpose_m U) Delta)) (skew (dot (transpose_m U) V)) R dR))"
  by (rule Stiefel_diff_exp_refine[OF assms(1-9)])

theorem Stiefel_diff_exp_symmetrizes_witness:
  "\<exists>dQ dR. is_mat 3 2 U_ex \<and> is_mat 3 2 Delta_ex \<and> is_mat 3 2 V_ex \<and>
     Stiefel_diff_QR lib_ex
          (msub Delta_ex (dot U_ex (skew (dot (transpose_m U_ex) Delta_ex))))
          (msub V_ex (dot U_ex (skew (dot (transpose_m U_ex) V_ex)))) = Inr (Q_ex, dQ, R_ex, dR) \<and>
     is_mat 3 2 Q_ex \<and> is_mat 2 2 R_ex \<and> (1::real) \<noteq> - 1 \<and>
     \<not> is_skew (dot (transpose_m U_ex) Delta_ex) \<and>
     Stiefel_diff_exp lib_ex U_ex Delta_ex V_ex 1 =
       Inr (general_combination 2 U_ex Q_ex dQ
                 (exp_blocks lib_ex 2 (1 / 2)
                    (skew (dot (transpose_m U_ex) Delta_ex)) (skew (dot (transpose_m U_ex) V_ex)) R_ex dR)
                 (diff_expm lib_ex (smul (1 / 2) (skew (dot (transpose_m U_ex) Delta_ex)))
                    (smul (1 / 2) (skew (dot (transpose_m U_ex) V_ex)))))"
proof -
  obtain dQ dR where r: "Stiefel_diff_QR lib_ex
          (msub Delta_ex (dot U_ex (skew (dot (transpose_m U_ex) Delta_ex))))
          (msub V_ex (dot U_ex (skew (dot (transpose_m U_ex) V_ex)))) = Inr (Q_ex, dQ, R_ex, dR)"
    using ex_QR_step by blast
  have a: "(1::real) \<noteq> - 1" by simp
  have n: "0 < (3::nat)" and p: "0 < (2::nat)" by simp_all
  have "Stiefel_diff_exp lib_ex U_ex Delta_ex V_ex 1 =
       Inr (general_combination 2 U_ex Q_ex dQ
                 (exp_blocks lib_ex 2 (1 / 2)
                    (skew (dot (transpose_m U_ex) Delta_ex)) (skew (dot (transpose_m U_ex) V_ex)) R_ex dR)
                 (diff_expm lib_ex (smul (1 / 2) (skew (dot (transpose_m U_ex) Delta_ex)))
                    (smul (1 / 2) (skew (dot (transpose_m U_ex) V_ex)))))"
    using Stiefel_diff_exp_symmetrizes[OF U_ex_shape Delta_ex_shape V_ex_shape n p r Q_ex_shape
        R_ex_shape a Delta_ex_not_skew]
    by simp
  with U_ex_shape Delta_ex_shape V_ex_shape r Q_ex_shape R_ex_shape a Delta_ex_not_skew
  show ?thesis by blast
qed

text \<open>
  C10, as amended. For \<open>\<bar>alpha\<bar> > 1e-10\<close> and \<open>\<bar>alpha + 1\<bar> \<le> 1e-10\<close>, once the QR step has
  returned, \<open>Stiefel_diff_exp\<close> returns the canonical-metric combination formula when
  \<open>alpha \<noteq> -1\<close>; at \<open>alpha = -1\<close> itself the division \<open>1.0 / (metric_alpha + 1.0)\<close> raises
  \<open>ZeroDivisionError\<close>.
\<close>

theorem Stiefel_diff_exp_near_minus_one:
  assumes "is_mat n p U" and "is_mat n p Delta" and "is_mat n p V" and "0 < n" and "0 < p"
    and "Stiefel_diff_QR lib
          (msub Delta (dot U (skew (dot (transpose_m U) Delta))))
          (msub V (dot U (skew (dot (transpose_m U) V)))) = Inr (Q, dQ, R, dR)"
    and "is_mat n p Q" and "is_mat p p R"
    and "\<bar>alpha\<bar> > 1 / 10 ^ 10" and "\<bar>alpha + 1\<bar> \<le> 1 / 10 ^ 10"
  shows "Stiefel_diff_exp lib U Delta V alpha =
     (if alpha = - 1 then Inl ZeroDivisionError
      else Inr (canonical_combination p U Q dQ
            (exp_blocks lib p (1 / (alpha + 1))
               (skew (dot (transpose_m U) Delta)) (skew (dot (transpose_m U) V)) R dR)))"
proof (cases "alpha = - 1")
  case True
  then show ?thesis using Stiefel_diff_exp_outcome[OF assms(6), of alpha] by simp
next
  case False
  from Stiefel_diff_exp_refine[OF assms(1-8) False] assms(10) False show ?thesis by simp
qed

theorem Stiefel_diff_exp_near_minus_one_witness:
  "\<exists>dQ dR. is_mat 3 2 U_ex \<and> is_mat 3 2 Delta_ex \<and> is_mat 3 2 V_ex \<and>
     Stiefel_diff_QR lib_ex
          (msub Delta_ex (dot U_ex (skew (dot (transpose_m U_ex) Delta_ex))))
          (msub V_ex (dot U_ex (skew (dot (transpose_m U_ex) V_ex)))) = Inr (Q_ex, dQ, R_ex, dR) \<and>
     is_mat 3 2 Q_ex \<and> is_mat 2 2 R_ex \<and>
     \<bar>- 1 + 1 / 10 ^ 11 :: real\<bar> > 1 / 10 ^ 10 \<and> \<bar>(- 1 + 1 / 10 ^ 11) + 1 :: real\<bar> \<le> 1 / 10 ^ 10 \<and>
     Stiefel_diff_exp lib_ex U_ex Delta_ex V_ex (- 1 + 1 / 10 ^ 11) =
       Inr (canonical_combination 2 U_ex Q_ex dQ
            (exp_blocks lib_ex 2 (1 / ((- 1 + 1 / 10 ^ 11) + 1))
               (skew (dot (transpose_m U_ex) Delta_ex)) (skew (dot (transpose_m U_ex) V_ex)) R_ex dR))"
proof -
  obtain dQ dR where r: "Stiefel_diff_QR lib_ex
          (msub Delta_ex (dot U_ex (skew (dot (transpose_m U_ex) Delta_ex))))
          (msub V_ex (dot U_ex (skew (dot (transpose_m U_ex) V_ex)))) = Inr (Q_ex, dQ, R_ex, dR)"
    using ex_QR_step by blast
  have a: "\<bar>- 1 + 1 / 10 ^ 11 :: real\<bar> > 1 / 10 ^ 10" by simp
  have b: "\<bar>(- 1 + 1 / 10 ^ 11) + 1 :: real\<bar> \<le> 1 / 10 ^ 10" by simp
  have c: "(- 1 + 1 / 10 ^ 11 :: real) \<noteq> - 1" by simp
  have n: "0 < (3::nat)" and p: "0 < (2::nat)" by simp_all
  have "Stiefel_diff_exp lib_ex U_ex Delta_ex V_ex (- 1 + 1 / 10 ^ 11) =
       Inr (canonical_combination 2 U_ex Q_ex dQ
            (exp_blocks lib_ex 2 (1 / ((- 1 + 1 / 10 ^ 11) + 1))
               (skew (dot (transpose_m U_ex) Delta_ex)) (skew (dot (transpose_m U_ex) V_ex)) R_ex dR))"
    using Stiefel_diff_exp_near_minus_one[OF U_ex_shape Delta_ex_shape V_ex_shape n p r Q_ex_shape
        R_ex_shape a b] c
    by (simp only: if_False)
  with U_ex_shape Delta_ex_shape V_ex_shape r Q_ex_shape R_ex_shape a b
  show ?thesis by blast
qed

text \<open>
  The claim C10 as it is stated fails at \<open>alpha = -1\<close>, which lies in its range: the call
  raises.
\<close>

theorem Stiefel_diff_exp_minus_one_raises:
  "\<bar>- 1 :: real\<bar> > 1 / 10 ^ 10 \<and> \<bar>- 1 + 1 :: real\<bar> \<le> 1 / 10 ^ 10 \<and>
   Stiefel_diff_exp lib_ex U_ex Delta_ex V_ex (- 1) = Inl ZeroDivisionError"
proof -
  obtain dQ dR where r: "Stiefel_diff_QR lib_ex
          (msub Delta_ex (dot U_ex (skew (dot (transpose_m U_ex) Delta_ex))))
          (msub V_ex (dot U_ex (skew (dot (transpose_m U_ex) V_ex)))) = Inr (Q_ex, dQ, R_ex, dR)"
    using ex_QR_step by blast
  show ?thesis using Stiefel_diff_exp_outcome[OF r, of "- 1"] by simp
qed

text \<open>
  C2, as amended. \<open>Stiefel_diff_exp\<close> does not validate \<open>alpha\<close>. If the QR step raises, the
  call ends with that error. Otherwise it fails only for \<open>alpha = -1\<close> exactly, with the
  \<open>ZeroDivisionError\<close> of \<open>1.0 / (metric_alpha + 1.0)\<close>; for every other \<open>alpha\<close>, below \<open>-1\<close>
  or within \<open>1e-10\<close> of it included, it returns a result.
\<close>

theorem Stiefel_diff_exp_alpha_unchecked:
  "case Stiefel_diff_QR lib
      (msub Delta (dot U (skew (dot (transpose_m U) Delta))))
      (msub V (dot U (skew (dot (transpose_m U) V)))) of
     Inl e \<Rightarrow> Stiefel_diff_exp lib U Delta V alpha = Inl e
   | Inr r \<Rightarrow>
       if alpha = - 1 then Stiefel_diff_exp lib U Delta V alpha = Inl ZeroDivisionError
       else (\<exists>d. Stiefel_diff_exp lib U Delta V alpha = Inr d)"
proof (cases "Stiefel_diff_QR lib
      (msub Delta (dot U (skew (dot (transpose_m U) Delta))))
      (msub V (dot U (skew (dot (transpose_m U) V))))")
  case (Inl e)
  then show ?thesis using Stiefel_diff_exp_QR_error[OF Inl, of alpha] by simp
next
  case (Inr r)
  then show ?thesis using Stiefel_diff_exp_outcome[OF Inr, of alpha] by simp
qed

theorem Stiefel_diff_exp_alpha_unchecked_witness:
  "\<exists>r. Stiefel_diff_QR lib_ex
      (msub Delta_ex (dot U_ex (skew (dot (transpose_m U_ex) Delta_ex))))
      (msub V_ex (dot U_ex (skew (dot (transpose_m U_ex) V_ex)))) = Inr r \<and>
    Stiefel_diff_exp lib_ex U_ex Delta_ex V_ex (- 1) = Inl ZeroDivisionError \<and>
    (\<exists>d. Stiefel_diff_exp lib_ex U_ex Delta_ex V_ex (- 3) = Inr d)"
proof -
  obtain r where r: "Stiefel_diff_QR lib_ex
      (msub Delta_ex (dot U_ex (skew (dot (transpose_m U_ex) Delta_ex))))
      (msub V_ex (dot U_ex (skew (dot (transpose_m U_ex) V_ex)))) = Inr r"
    using ex_QR_step by blast
  have "Stiefel_diff_exp lib_ex U_ex Delta_ex V_ex (- 1) = Inl ZeroDivisionError"
    using Stiefel_diff_exp_alpha_unchecked[where lib = lib_ex and U = U_ex and Delta = Delta_ex and V = V_ex and alpha = "- 1"] by (simp add: r)
  moreover have "\<exists>d. Stiefel_diff_exp lib_ex U_ex Delta_ex V_ex (- 3) = Inr d"
    using Stiefel_diff_exp_alpha_unchecked[where lib = lib_ex and U = U_ex and Delta = Delta_ex and V = V_ex and alpha = "- 3"] by (simp add: r)
  ultimately show ?thesis using r by blast
qed

text \<open>
  The claim C2 as it is stated fails at \<open>alpha = -2\<close>: the call returns a result.
\<close>

theorem Stiefel_diff_exp_accepts_minus_two:
  "(- 2 :: real) \<le> - 1 \<and> (\<exists>d. Stiefel_diff_exp lib_ex U_ex Delta_ex V_ex (- 2) = Inr d)"
proof -
  obtain r where r: "Stiefel_diff_QR lib_ex
      (msub Delta_ex (dot U_ex (skew (dot (transpose_m U_ex) Delta_ex))))
      (msub V_ex (dot U_ex (skew (dot (transpose_m U_ex) V_ex)))) = Inr r"
    using ex_QR_step by blast
  show ?thesis using Stiefel_diff_exp_outcome[OF r, of "- 2"] by simp
qed

section \<open>The claim about the arrays of the caller\<close>

lemma Stiefel_diff_QR_call_value:
  assumes "a0 \<noteq> v"
  shows "snd (Stiefel_diff_QR_call lib a0 v s) = Stiefel_diff_QR lib (get_mat s a0) (get_mat s v)"
  using assms by (simp add: Stiefel_diff_QR_call_def Let_def get_mat_def)

lemma Stiefel_diff_exp_call_QR:
  "Stiefel_diff_QR_call lib (length s) (length s + 1) (s @ [Mat X0, Mat Y0]) =
     (s @ [Mat (qr_leaves lib X0), Mat Y0], Stiefel_diff_QR lib X0 Y0)"
  by (simp add: Stiefel_diff_QR_call_def Let_def get_mat_def nth_append)

text \<open>
  C6, as amended. \<open>diff_expm\<close>, \<open>Stiefel_diff_exp\<close> and \<open>Stiefel_diff_SVD\<close> leave every array of
  the caller as it was. \<open>Stiefel_diff_QR\<close> leaves every array but \<open>A0\<close> as it was, and so \<open>V\<close>
  when it is another array; \<open>A0\<close> holds afterwards what \<open>linalg.qr\<close>, called with
  \<open>overwrite_a=True\<close>, left in its storage.
\<close>

theorem effects_on_caller_arrays:
  "fst (Stiefel_diff_QR_call lib a0 v s) = s[a0 := Mat (qr_leaves lib (get_mat s a0))] \<and>
   fst (diff_expm_call lib m dm s) = s \<and>
   take (length s) (fst (Stiefel_diff_exp_call lib u delta w alpha s)) = s \<and>
   fst (Stiefel_diff_SVD_call y dy u' sv v' s) = s"
  by (simp add: Stiefel_diff_QR_call_def diff_expm_call_def Stiefel_diff_SVD_call_def
      Stiefel_diff_exp_call_def Stiefel_diff_exp_call_QR Let_def)

text \<open>
  The claim C6 as it is stated fails with a QR routine that works in place: after the call
  the array \<open>A0\<close> of the caller holds \<open>Q\<close>.
\<close>

theorem Stiefel_diff_QR_overwrites_A0:
  "get_mat (fst (Stiefel_diff_QR_call lib_inplace 0 1 [Mat A_ex, Mat V_ex])) 0 = Q_ex \<and>
   Q_ex \<noteq> A_ex \<and>
   (\<exists>dQ dR. snd (Stiefel_diff_QR_call lib_inplace 0 1 [Mat A_ex, Mat V_ex]) = Inr (Q_ex, dQ, R_ex, dR))"
proof -
  have q: "qr lib_inplace A_ex = (Q_ex, R_ex)" by (simp add: lib_inplace_def lib_ex_def)
  have "\<exists>dQ dR. Stiefel_diff_QR lib_inplace A_ex V_ex = Inr (Q_ex, dQ, R_ex, dR)"
    using Stiefel_diff_QR_returns[OF A_ex_shape V_ex_shape _ _ q ex_thin_qr A_ex_full_rank]
    by simp
  then show ?thesis
    by (simp add: Stiefel_diff_QR_call_def Let_def get_mat_def lib_inplace_def lib_ex_def)
       (simp add: Q_ex_def A_ex_def)
qed

section \<open>Powers and the exponential series\<close>

lemma sum_two_blocks:
  fixes f :: "nat \<Rightarrow> real"
  shows "(\<Sum>l = 0..<2 * p. f l) = (\<Sum>l = 0..<p. f l) + (\<Sum>l = 0..<p. f (l + p))"
proof -
  have "(\<Sum>l = 0..<2 * p. f l) = (\<Sum>l = 0..<p. f l) + (\<Sum>l = p..<2 * p. f l)"
    by (simp add: sum.atLeastLessThan_concat)
  also have "(\<Sum>l = p..<2 * p. f l) = (\<Sum>l = 0..<p. f (l + p))"
    using sum.shift_bounds_nat_ivl[of f 0 p p] by (simp add: mult_2)
  finally show ?thesis .
qed

lemma blk_step:
  "mm (2 * p) (blk p m d (\<lambda>i j. 0) m) (blk p P T (\<lambda>i j. 0) P) =
     blk p (mm p m P) (\<lambda>i j. mm p m T i j + mm p d P i j) (\<lambda>i j. 0) (mm p m P)"
  by (auto simp: fun_eq_iff mm_def sum_two_blocks blk_def sum.distrib)

lemma blk_idp: "idp (2 * p) = blk p (idp p) (\<lambda>i j. 0) (\<lambda>i j. 0) (idp p)"
  by (auto simp: fun_eq_iff idp_def blk_def)

lemma mpow_blk:
  "mpow (2 * p) (blk p m d (\<lambda>i j. 0) m) k =
     blk p (mpow p m k) (tpow p m d k) (\<lambda>i j. 0) (mpow p m k)"
proof (induction k)
  case 0
  show ?case by (simp add: blk_idp)
next
  case (Suc k)
  show ?case by (simp add: Suc blk_step)
qed

lemma expf_blk:
  "expf (2 * p) (blk p m d (\<lambda>i j. 0) m) =
     blk p (expf p m) (dexpf p m d) (\<lambda>i j. 0) (expf p m)"
proof (intro ext)
  fix i j
  have "expf (2 * p) (blk p m d (\<lambda>i j. 0) m) i j =
      (\<Sum>k. blk p (mpow p m k) (tpow p m d k) (\<lambda>i j. 0) (mpow p m k) i j / fact k)"
    by (simp add: expf_def mpow_blk)
  also have "\<dots> = blk p (expf p m) (dexpf p m d) (\<lambda>i j. 0) (expf p m) i j"
    by (simp add: blk_def expf_def dexpf_def)
  finally show "expf (2 * p) (blk p m d (\<lambda>i j. 0) m) i j =
      blk p (expf p m) (dexpf p m d) (\<lambda>i j. 0) (expf p m) i j" .
qed

lemma mm_bound:
  assumes "\<And>l. \<bar>f i l\<bar> \<le> c" "\<And>l. \<bar>g l j\<bar> \<le> e" "0 \<le> c"
  shows "\<bar>mm p f g i j\<bar> \<le> real p * (c * e)"
proof -
  have "\<bar>mm p f g i j\<bar> \<le> (\<Sum>l = 0..<p. \<bar>f i l * g l j\<bar>)"
    unfolding mm_def by (rule sum_abs)
  also have "\<dots> \<le> (\<Sum>l = 0..<p. c * e)"
  proof (rule sum_mono)
    fix l
    have "\<bar>f i l\<bar> * \<bar>g l j\<bar> \<le> c * e"
      using assms by (intro mult_mono) auto
    then show "\<bar>f i l * g l j\<bar> \<le> c * e" by (simp add: abs_mult)
  qed
  also have "\<dots> = real p * (c * e)" by simp
  finally show ?thesis .
qed

lemma idp_bound: "\<bar>idp p i j\<bar> \<le> 1"
  by (simp add: idp_def)

lemma mpow_bound:
  assumes "\<And>a c. \<bar>f a c\<bar> \<le> c0"
  shows "\<bar>mpow p f k i j\<bar> \<le> (real p * c0) ^ k"
proof (induction k arbitrary: i j)
  case 0
  show ?case by (simp add: idp_bound)
next
  case (Suc k)
  have c0: "0 \<le> c0" using assms[of 0 0] by linarith
  have "\<bar>mm p f (mpow p f k) i j\<bar> \<le> real p * (c0 * (real p * c0) ^ k)"
    using assms Suc c0 by (intro mm_bound) auto
  then show ?case by (simp add: mult.assoc)
qed

lemma curve_bound:
  fixes m d :: "nat \<Rightarrow> nat \<Rightarrow> real"
  assumes "\<And>a c. \<bar>m a c\<bar> \<le> cm" "\<And>a c. \<bar>d a c\<bar> \<le> cd" "\<bar>t\<bar> \<le> 1"
  shows "\<bar>m a c + t * d a c\<bar> \<le> cm + cd"
proof -
  have "0 \<le> cd" using assms(2)[of 0 0] by linarith
  have "\<bar>t * d a c\<bar> \<le> 1 * cd"
    unfolding abs_mult using assms by (intro mult_mono) auto
  then show ?thesis using assms(1)[of a c] by linarith
qed

lemma mpow_lipschitz:
  fixes m d :: "nat \<Rightarrow> nat \<Rightarrow> real" and p :: nat
  assumes m: "\<And>a c. \<bar>m a c\<bar> \<le> cm" and d: "\<And>a c. \<bar>d a c\<bar> \<le> cd"
    and x: "\<bar>x\<bar> \<le> 1" and y: "\<bar>y\<bar> \<le> 1"
  defines "K \<equiv> real p * (cm + cd)"
  shows "\<bar>mpow p (\<lambda>a c. m a c + x * d a c) k i j - mpow p (\<lambda>a c. m a c + y * d a c) k i j\<bar>
           \<le> real k * K ^ k * \<bar>x - y\<bar>"
proof (induction k arbitrary: i j)
  case 0
  show ?case by simp
next
  case (Suc k)
  let ?B1 = "\<lambda>a c. m a c + x * d a c"
  let ?B2 = "\<lambda>a c. m a c + y * d a c"
  let ?Px = "mpow p ?B1 k"
  let ?Py = "mpow p ?B2 k"
  have cm: "0 \<le> cm" using m[of 0 0] by linarith
  have cd: "0 \<le> cd" using d[of 0 0] by linarith
  have K: "0 \<le> K" using cm cd by (simp add: K_def)
  have Py: "\<bar>?Py l j\<bar> \<le> K ^ k" for l
    unfolding K_def by (rule mpow_bound) (rule curve_bound[OF m d y])
  have tm: "\<bar>?B1 i l * ?Px l j - ?B2 i l * ?Py l j\<bar>
      \<le> (cm + cd) * (real k * K ^ k * \<bar>x - y\<bar>) + (\<bar>x - y\<bar> * cd) * K ^ k" for l
  proof -
    have e: "?B1 i l * ?Px l j - ?B2 i l * ?Py l j
        = ?B1 i l * (?Px l j - ?Py l j) + ((x - y) * d i l) * ?Py l j"
      by (simp add: algebra_simps)
    have 1: "\<bar>?B1 i l * (?Px l j - ?Py l j)\<bar> \<le> (cm + cd) * (real k * K ^ k * \<bar>x - y\<bar>)"
      unfolding abs_mult
      using curve_bound[of m cm d cd x i l, OF m d x] Suc[of l j] cm cd
      by (intro mult_mono) auto
    have "\<bar>(x - y) * d i l\<bar> \<le> \<bar>x - y\<bar> * cd"
      unfolding abs_mult using d[of i l] by (intro mult_mono) auto
    then have 2: "\<bar>((x - y) * d i l) * ?Py l j\<bar> \<le> (\<bar>x - y\<bar> * cd) * K ^ k"
      unfolding abs_mult[of _ "?Py l j"] using Py[of l] cd
      by (intro mult_mono) auto
    show ?thesis unfolding e using 1 2 by linarith
  qed
  have "\<bar>mpow p ?B1 (Suc k) i j - mpow p ?B2 (Suc k) i j\<bar>
      = \<bar>\<Sum>l = 0..<p. (?B1 i l * ?Px l j - ?B2 i l * ?Py l j)\<bar>"
    by (simp add: mm_def sum_subtractf)
  also have "\<dots> \<le> (\<Sum>l = 0..<p. \<bar>?B1 i l * ?Px l j - ?B2 i l * ?Py l j\<bar>)"
    by (rule sum_abs)
  also have "\<dots> \<le> (\<Sum>l = 0..<p. (cm + cd) * (real k * K ^ k * \<bar>x - y\<bar>) + (\<bar>x - y\<bar> * cd) * K ^ k)"
    by (rule sum_mono) (rule tm)
  also have "\<dots> = real k * (K * K ^ k) * \<bar>x - y\<bar> + (real p * cd) * K ^ k * \<bar>x - y\<bar>"
    by (simp add: K_def algebra_simps)
  also have "\<dots> \<le> real k * (K * K ^ k) * \<bar>x - y\<bar> + K * K ^ k * \<bar>x - y\<bar>"
  proof -
    have "real p * cd \<le> K" using cm by (simp add: K_def mult_left_mono)
    then have "(real p * cd) * K ^ k * \<bar>x - y\<bar> \<le> K * K ^ k * \<bar>x - y\<bar>"
      using K by (intro mult_right_mono) auto
    then show ?thesis by simp
  qed
  also have "\<dots> = real (Suc k) * K ^ Suc k * \<bar>x - y\<bar>"
    by (simp add: algebra_simps)
  finally show ?case .
qed

lemma tpow_bound:
  fixes m d :: "nat \<Rightarrow> nat \<Rightarrow> real" and p :: nat
  assumes m: "\<And>a c. \<bar>m a c\<bar> \<le> cm" and d: "\<And>a c. \<bar>d a c\<bar> \<le> cd"
  defines "K \<equiv> real p * (cm + cd)"
  shows "\<bar>tpow p m d k i j\<bar> \<le> real k * K ^ k"
proof (induction k arbitrary: i j)
  case 0
  show ?case by simp
next
  case (Suc k)
  have cm: "0 \<le> cm" using m[of 0 0] by linarith
  have cd: "0 \<le> cd" using d[of 0 0] by linarith
  have K: "0 \<le> K" using cm cd by (simp add: K_def)
  have mp: "\<bar>mpow p m k l j\<bar> \<le> K ^ k" for l
  proof -
    have "\<bar>mpow p m k l j\<bar> \<le> (real p * cm) ^ k" by (rule mpow_bound) (rule m)
    also have "\<dots> \<le> K ^ k"
      using cm cd by (intro power_mono) (simp_all add: K_def mult_left_mono)
    finally show ?thesis .
  qed
  have 1: "\<bar>mm p m (tpow p m d k) i j\<bar> \<le> real p * (cm * (real k * K ^ k))"
    using m Suc cm by (intro mm_bound) auto
  have 2: "\<bar>mm p d (mpow p m k) i j\<bar> \<le> real p * (cd * K ^ k)"
    using d mp cd by (intro mm_bound) auto
  have "\<bar>tpow p m d (Suc k) i j\<bar> \<le> real p * (cm * (real k * K ^ k)) + real p * (cd * K ^ k)"
    using 1 2 by simp
  also have "\<dots> \<le> real k * (K * K ^ k) + K * K ^ k"
  proof -
    have "real p * cm \<le> K" "real p * cd \<le> K"
      using cm cd by (simp_all add: K_def mult_left_mono)
    then have "(real p * cm) * (real k * K ^ k) \<le> K * (real k * K ^ k)"
        "(real p * cd) * K ^ k \<le> K * K ^ k"
      using K by (intro mult_right_mono; simp)+
    then show ?thesis by (simp add: algebra_simps)
  qed
  also have "\<dots> = real (Suc k) * K ^ Suc k" by (simp add: algebra_simps)
  finally show ?case .
qed

lemma DERIV_mpow:
  fixes m d :: "nat \<Rightarrow> nat \<Rightarrow> real"
  shows "((\<lambda>t. mpow p (\<lambda>a c. m a c + t * d a c) k i j) has_real_derivative tpow p m d k i j) (at 0)"
proof (induction k arbitrary: i j)
  case 0
  show ?case by simp
next
  case (Suc k)
  have "((\<lambda>t. (m i l + t * d i l) * mpow p (\<lambda>a c. m a c + t * d a c) k l j)
      has_real_derivative (d i l * mpow p m k l j + m i l * tpow p m d k l j)) (at 0)" for l
    by (rule derivative_eq_intros Suc refl)+ simp
  then have "((\<lambda>t. \<Sum>l = 0..<p. (m i l + t * d i l) * mpow p (\<lambda>a c. m a c + t * d a c) k l j)
      has_real_derivative (\<Sum>l = 0..<p. d i l * mpow p m k l j + m i l * tpow p m d k l j)) (at 0)"
    by (intro DERIV_sum) simp
  then show ?case by (simp add: mm_def sum.distrib add.commute)
qed

lemma summable_pow_fact: "summable (\<lambda>k. (c::real) ^ k / fact k)"
  using summable_exp[of c] by (simp add: divide_inverse mult.commute)

lemma nat_pow_le: "0 \<le> K \<Longrightarrow> real k * K ^ k \<le> (2 * K) ^ k"
proof -
  assume K: "0 \<le> K"
  have "real k \<le> 2 ^ k" using of_nat_less_two_power[of k, where 'a = real] by simp
  then have "real k * K ^ k \<le> 2 ^ k * K ^ k"
    using K by (intro mult_right_mono) auto
  then show ?thesis by (simp add: power_mult_distrib)
qed

lemma DERIV_expf:
  fixes m d :: "nat \<Rightarrow> nat \<Rightarrow> real" and p :: nat
  assumes m: "\<And>a c. \<bar>m a c\<bar> \<le> cm" and d: "\<And>a c. \<bar>d a c\<bar> \<le> cd"
  shows "((\<lambda>t. expf p (\<lambda>a c. m a c + t * d a c) i j) has_real_derivative dexpf p m d i j) (at 0)"
proof -
  define K where "K = real p * (cm + cd)"
  define f where "f = (\<lambda>(t::real) k. mpow p (\<lambda>a c. m a c + t * d a c) k i j / fact k)"
  define f' where "f' = (\<lambda>(t::real) k. tpow p m d k i j / fact k)"
  define L where "L = (\<lambda>k. (2 * K) ^ k / fact k)"
  have cm: "0 \<le> cm" using m[of 0 0] by linarith
  have cd: "0 \<le> cd" using d[of 0 0] by linarith
  have K: "0 \<le> K" using cm cd by (simp add: K_def)
  have sL: "summable L" unfolding L_def by (rule summable_pow_fact)
  have "((\<lambda>x. suminf (f x)) has_real_derivative suminf (f' 0)) (at 0)"
  proof (rule DERIV_series'[where a = "- 1" and b = 1 and L = L])
    show "((\<lambda>x. f x n) has_real_derivative f' 0 n) (at 0)" for n
      unfolding f_def f'_def by (intro DERIV_cdivide DERIV_mpow)
    show "summable (f x)" if "x \<in> {- 1<..<1}" for x
    proof (rule summable_comparison_test'[where g = "\<lambda>k. K ^ k / fact k" and N = 0])
      show "summable (\<lambda>k. K ^ k / fact k)" by (rule summable_pow_fact)
      fix k
      have x: "\<bar>x\<bar> \<le> 1" using that by auto
      have "\<bar>mpow p (\<lambda>a c. m a c + x * d a c) k i j\<bar> \<le> K ^ k"
        unfolding K_def by (rule mpow_bound) (rule curve_bound[OF m d x])
      then show "norm (f x k) \<le> K ^ k / fact k"
        by (simp add: f_def divide_right_mono)
    qed
    show "(0::real) \<in> {- 1<..<1}" by simp
    show "summable (f' 0)"
    proof (rule summable_comparison_test'[where g = L and N = 0])
      show "summable L" by (rule sL)
      fix k
      have "\<bar>tpow p m d k i j\<bar> \<le> real k * K ^ k"
        unfolding K_def by (rule tpow_bound[OF m d])
      also have "\<dots> \<le> (2 * K) ^ k" by (rule nat_pow_le[OF K])
      finally show "norm (f' 0 k) \<le> L k"
        by (simp add: f'_def L_def divide_right_mono)
    qed
    show "summable L" by (rule sL)
    show "\<bar>f x n - f y n\<bar> \<le> L n * \<bar>x - y\<bar>"
      if "x \<in> {- 1<..<1}" "y \<in> {- 1<..<1}" for n x y
    proof -
      have x: "\<bar>x\<bar> \<le> 1" and y: "\<bar>y\<bar> \<le> 1" using that by auto
      have "\<bar>mpow p (\<lambda>a c. m a c + x * d a c) n i j - mpow p (\<lambda>a c. m a c + y * d a c) n i j\<bar>
          \<le> real n * K ^ n * \<bar>x - y\<bar>"
        unfolding K_def by (rule mpow_lipschitz[OF m d x y])
      also have "\<dots> \<le> (2 * K) ^ n * \<bar>x - y\<bar>"
        using nat_pow_le[OF K, of n] by (intro mult_right_mono) auto
      finally have "\<bar>mpow p (\<lambda>a c. m a c + x * d a c) n i j - mpow p (\<lambda>a c. m a c + y * d a c) n i j\<bar> / fact n
          \<le> (2 * K) ^ n * \<bar>x - y\<bar> / fact n"
        by (rule divide_right_mono) simp
      then show ?thesis
        by (simp add: f_def L_def diff_divide_distrib[symmetric])
    qed
  qed
  then show ?thesis by (simp add: expf_def dexpf_def f_def f'_def)
qed

lemma elt_bounded:
  assumes "is_mat n q A"
  shows "\<exists>c. \<forall>a b. \<bar>elt A a b\<bar> \<le> c"
proof -
  define c where "c = (\<Sum>a = 0..<n. \<Sum>b = 0..<q. \<bar>elt A a b\<bar>)"
  have "\<bar>elt A a b\<bar> \<le> c" for a b
  proof (cases "a < n \<and> b < q")
    case True
    have "\<bar>elt A a b\<bar> \<le> (\<Sum>b = 0..<q. \<bar>elt A a b\<bar>)"
      using True by (intro member_le_sum) auto
    also have "\<dots> \<le> c"
      unfolding c_def using True
      by (intro member_le_sum[of a _ "\<lambda>a. \<Sum>b = 0..<q. \<bar>elt A a b\<bar>"]) (auto intro: sum_nonneg)
    finally show ?thesis .
  next
    case False
    have "0 \<le> c" unfolding c_def by (intro sum_nonneg) auto
    then show ?thesis using elt_outside[OF assms False] by simp
  qed
  then show ?thesis by blast
qed

lemma mat_of_cong:
  assumes "\<And>i j. i < n \<Longrightarrow> j < q \<Longrightarrow> f i j = g i j"
  shows "mat_of n q f = mat_of n q g"
  using assms by (simp add: mat_of_def)

lemma slice_mat_of:
  assumes "r1 \<le> n" "c1 \<le> q"
  shows "slice (mat_of n q g) r0 r1 c0 c1 = mat_of (r1 - r0) (c1 - c0) (\<lambda>i j. g (r0 + i) (c0 + j))"
proof (rule nth_equalityI)
  show len: "length (slice (mat_of n q g) r0 r1 c0 c1)
      = length (mat_of (r1 - r0) (c1 - c0) (\<lambda>i j. g (r0 + i) (c0 + j)))"
    using assms by (simp add: slice_def mat_of_def)
  fix i assume "i < length (slice (mat_of n q g) r0 r1 c0 c1)"
  then have i: "i < r1 - r0" using assms by (simp add: slice_def mat_of_def)
  then have i': "r0 + i < n" using assms by simp
  show "slice (mat_of n q g) r0 r1 c0 c1 ! i
      = mat_of (r1 - r0) (c1 - c0) (\<lambda>i j. g (r0 + i) (c0 + j)) ! i"
  proof (rule nth_equalityI)
    show "length (slice (mat_of n q g) r0 r1 c0 c1 ! i)
        = length (mat_of (r1 - r0) (c1 - c0) (\<lambda>i j. g (r0 + i) (c0 + j)) ! i)"
      using assms i i' by (simp add: slice_def mat_of_def)
    fix j assume "j < length (slice (mat_of n q g) r0 r1 c0 c1 ! i)"
    then have j: "j < c1 - c0" using assms i i' by (simp add: slice_def mat_of_def)
    then have "c0 + j < q" using assms by simp
    then show "slice (mat_of n q g) r0 r1 c0 c1 ! i ! j
        = mat_of (r1 - r0) (c1 - c0) (\<lambda>i j. g (r0 + i) (c0 + j)) ! i ! j"
      using assms i i' j by (simp add: slice_def mat_of_def)
  qed
qed

lemma slice_block2:
  assumes "is_mat p p A" "is_mat p p B"
  shows "slice (block2 p A B C D) 0 p 0 p = A" "slice (block2 p A B C D) 0 p p (2 * p) = B"
proof -
  have "slice (block2 p A B C D) 0 p 0 p = mat_of p p (elt A)"
    unfolding block2_def by (subst slice_mat_of) (auto intro: mat_of_cong)
  then show "slice (block2 p A B C D) 0 p 0 p = A" using assms by (simp add: mat_of_elt)
  have "slice (block2 p A B C D) 0 p p (2 * p) = mat_of p p (elt B)"
    unfolding block2_def by (subst slice_mat_of) (auto intro: mat_of_cong)
  then show "slice (block2 p A B C D) 0 p p (2 * p) = B" using assms by (simp add: mat_of_elt)
qed

lemma elt_block2:
  assumes "is_mat p p A" "is_mat p p B" "is_mat p p C" "is_mat p p D"
  shows "elt (block2 p A B C D) = blk p (elt A) (elt B) (elt C) (elt D)"
proof (intro ext)
  fix i j
  show "elt (block2 p A B C D) i j = blk p (elt A) (elt B) (elt C) (elt D) i j"
  proof (cases "i < 2 * p \<and> j < 2 * p")
    case True
    then show ?thesis by (simp add: block2_def elt_mat_of blk_def)
  next
    case False
    have lhs: "elt (block2 p A B C D) i j = 0"
      using False by (simp only: block2_def elt_mat_of if_False)
    show ?thesis
    proof (cases "i < p")
      case True
      with False have "\<not> j < p" "\<not> (i < p \<and> j - p < p)" by arith+
      then show ?thesis
        using True elt_outside[OF assms(2), of i "j - p"] by (simp add: lhs blk_def)
    next
      case ip: False
      show ?thesis
      proof (cases "j < p")
        case True
        with False ip have "\<not> (i - p < p \<and> j < p)" by arith
        then show ?thesis
          using True ip elt_outside[OF assms(3), of "i - p" j] by (simp add: lhs blk_def)
      next
        case jp: False
        with False ip have "\<not> (i - p < p \<and> j - p < p)" by arith
        then show ?thesis
          using jp ip elt_outside[OF assms(4), of "i - p" "j - p"] by (simp add: lhs blk_def)
      qed
    qed
  qed
qed

lemma elt_expm_exact:
  assumes "is_mat p p A" "i < p" "j < p"
  shows "elt (expm_exact A) i j = expf p (elt A) i j"
  using assms by (simp add: expm_exact_def elt_mat_of is_mat_nrows)

lemma is_mat_expm_exact: "is_mat p p A \<Longrightarrow> is_mat p p (expm_exact A)"
  by (simp add: expm_exact_def is_mat_nrows is_mat_mat_of)

lemma expm_exact_block:
  assumes M: "is_mat p p M" and dM: "is_mat p p dM"
  shows "expm_exact (block2 p M dM (zeros p p) M) =
     block2 p (expm_exact M) (mat_of p p (dexpf p (elt M) (elt dM))) (zeros p p) (expm_exact M)"
proof -
  have n: "nrows (block2 p M dM (zeros p p) M) = 2 * p"
    by (simp add: block2_def nrows_mat_of)
  have e: "elt (block2 p M dM (zeros p p) M) = blk p (elt M) (elt dM) (\<lambda>i j. 0) (elt M)"
  proof -
    have "elt (zeros p p) = (\<lambda>i j. 0)" by (intro ext) (simp add: elt_zeros)
    then show ?thesis using elt_block2[OF M dM is_mat_zeros M] by simp
  qed
  have "expm_exact (block2 p M dM (zeros p p) M) =
      mat_of (2 * p) (2 * p) (blk p (expf p (elt M)) (dexpf p (elt M) (elt dM)) (\<lambda>i j. 0) (expf p (elt M)))"
    by (simp add: expm_exact_def n e expf_blk)
  also have "\<dots> = block2 p (expm_exact M) (mat_of p p (dexpf p (elt M) (elt dM))) (zeros p p) (expm_exact M)"
    unfolding block2_def
    by (rule mat_of_cong) (auto simp: blk_def elt_expm_exact[OF M] elt_mat_of elt_zeros)
  finally show ?thesis .
qed

section \<open>The claim about the matrix exponential\<close>

text \<open>
  C5. For square \<open>M\<close> and \<open>dM\<close> of size \<open>p\<close>, \<open>diff_expm\<close> builds the block matrix
  \<open>Aux = [[M, dM], [0, M]]\<close>; when \<open>linalg.expm\<close> returns the exponential of \<open>Aux\<close>, that is
  \<open>[[exp M, dexpM], [0, exp M]]\<close>, where \<open>dexpM\<close> is the derivative of \<open>exp (M + t dM)\<close> at
  \<open>t = 0\<close>, and \<open>diff_expm\<close> returns the two upper blocks \<open>exp M\<close> and \<open>dexpM\<close>.
\<close>

theorem diff_expm_block_identity:
  assumes M: "is_mat p p M" and dM: "is_mat p p dM" and p: "0 < p"
    and ex: "expm lib (block2 p M dM (zeros p p) M) = expm_exact (block2 p M dM (zeros p p) M)"
  shows "\<exists>dexpM.
     concatenate0 (concatenate1 M dM) (concatenate1 (zeros p p) M) = block2 p M dM (zeros p p) M \<and>
     expm lib (block2 p M dM (zeros p p) M)
       = block2 p (expm_exact M) dexpM (zeros p p) (expm_exact M) \<and>
     diff_expm lib M dM = (expm_exact M, dexpM) \<and>
     is_mat p p dexpM \<and>
     (\<forall>i<p. \<forall>j<p. ((\<lambda>t. elt (expm_exact (madd M (smul t dM))) i j)
                       has_real_derivative elt dexpM i j) (at 0))"
proof -
  define dE where "dE = mat_of p p (dexpf p (elt M) (elt dM))"
  have dE: "is_mat p p dE" by (simp add: dE_def is_mat_mat_of)
  have E: "is_mat p p (expm_exact M)" by (rule is_mat_expm_exact[OF M])
  have aux: "concatenate0 (concatenate1 M dM) (concatenate1 (zeros p p) M)
      = block2 p M dM (zeros p p) M"
    by (rule concat_block2[OF M dM is_mat_zeros M])
  have blocks: "expm lib (block2 p M dM (zeros p p) M)
      = block2 p (expm_exact M) dE (zeros p p) (expm_exact M)"
    unfolding ex dE_def by (rule expm_exact_block[OF M dM])
  have ret: "diff_expm lib M dM = (expm_exact M, dE)"
    by (simp add: diff_expm_def Let_def is_mat_nrows[OF M] aux blocks slice_block2[OF E dE])
  have der: "((\<lambda>t. elt (expm_exact (madd M (smul t dM))) i j)
                       has_real_derivative elt dE i j) (at 0)" if i: "i < p" and j: "j < p" for i j
  proof -
    obtain cm where cm: "\<And>a c. \<bar>elt M a c\<bar> \<le> cm" using elt_bounded[OF M] by blast
    obtain cd where cd: "\<And>a c. \<bar>elt dM a c\<bar> \<le> cd" using elt_bounded[OF dM] by blast
    have curve: "elt (expm_exact (madd M (smul t dM))) i j
        = expf p (\<lambda>a c. elt M a c + t * elt dM a c) i j" for t
    proof -
      note S = smul_typed[OF dM p, of t]
      note X = madd_typed[OF M S(1) p]
      show ?thesis using elt_expm_exact[OF X(1) i j] by (simp add: X(2) S(2))
    qed
    have "elt dE i j = dexpf p (elt M) (elt dM) i j"
      using i j by (simp add: dE_def elt_mat_of)
    then show ?thesis
      unfolding curve using DERIV_expf[of "elt M" cm "elt dM" cd p i j] cm cd by simp
  qed
  from aux blocks ret dE der show ?thesis by blast
qed

theorem diff_expm_block_identity_witness:
  "is_mat 2 2 M_ex \<and> is_mat 2 2 dM_ex \<and>
   expm lib_exact (block2 2 M_ex dM_ex (zeros 2 2) M_ex) = expm_exact (block2 2 M_ex dM_ex (zeros 2 2) M_ex) \<and>
   (\<exists>dexpM.
     concatenate0 (concatenate1 M_ex dM_ex) (concatenate1 (zeros 2 2) M_ex)
       = block2 2 M_ex dM_ex (zeros 2 2) M_ex \<and>
     expm lib_exact (block2 2 M_ex dM_ex (zeros 2 2) M_ex)
       = block2 2 (expm_exact M_ex) dexpM (zeros 2 2) (expm_exact M_ex) \<and>
     diff_expm lib_exact M_ex dM_ex = (expm_exact M_ex, dexpM) \<and>
     is_mat 2 2 dexpM \<and>
     (\<forall>i<2. \<forall>j<2. ((\<lambda>t. elt (expm_exact (madd M_ex (smul t dM_ex))) i j)
                       has_real_derivative elt dexpM i j) (at 0)))"
proof -
  have M: "is_mat 2 2 M_ex" by (simp add: is_mat_def M_ex_def)
  have dM: "is_mat 2 2 dM_ex" by (simp add: is_mat_def dM_ex_def)
  have ex: "expm lib_exact (block2 2 M_ex dM_ex (zeros 2 2) M_ex)
      = expm_exact (block2 2 M_ex dM_ex (zeros 2 2) M_ex)"
    by (simp add: lib_exact_def)
  have p: "0 < (2::nat)" by simp
  from diff_expm_block_identity[OF M dM p ex] M dM ex show ?thesis by blast
qed

section \<open>The singular value decomposition\<close>

lemma rect_loop:
  assumes "is_mat n p A"
  shows "is_mat n p (fold (\<lambda>j A. fold (\<lambda>k A. set_elt A j k (g j k)) [0..<c] A) [0..<m] A) \<and>
         elt (fold (\<lambda>j A. fold (\<lambda>k A. set_elt A j k (g j k)) [0..<c] A) [0..<m] A) =
           (\<lambda>a b. if a < m \<and> b < c \<and> a < n \<and> b < p then g a b else elt A a b)"
proof (induction m)
  case 0
  show ?case using assms by simp
next
  case (Suc m)
  let ?F = "\<lambda>j A. fold (\<lambda>k A. set_elt A j k (g j k)) [0..<c] A"
  let ?B = "fold ?F [0..<m] A"
  from Suc have B: "is_mat n p ?B" by simp
  have step: "fold ?F [0..<Suc m] A = ?F m ?B" by simp
  note r = row_loop[OF B, of m "g m" c]
  have "elt (?F m ?B) =
      (\<lambda>a b. if a < Suc m \<and> b < c \<and> a < n \<and> b < p then g a b else elt A a b)"
    using Suc r by (auto simp: fun_eq_iff less_Suc_eq)
  with r step show ?case by simp
qed

lemma Alpha_mp_loop:
  "fold (\<lambda>j A. fold (\<lambda>k A. set_elt A j k (elt C k j / S ! k)) [0..<p] A) [0..<m - p] (zeros (m - p) p)
     = Alpha_mp_spec m p S C"
proof -
  note r = rect_loop[OF is_mat_zeros, of "m - p" p "\<lambda>j k. elt C k j / S ! k" p "m - p"]
  show ?thesis
    unfolding Alpha_mp_spec_def
    using conjunct1[OF r] is_mat_mat_of
    by (rule mat_eqI) (simp add: conjunct2[OF r] elt_mat_of)
qed

lemma vec_loop:
  "c \<le> p \<Longrightarrow> fold (\<lambda>k x. x[k := f k]) [0..<c] (replicate p (0::real))
     = map f [0..<c] @ replicate (p - c) 0"
proof (induction c)
  case 0
  show ?case by simp
next
  case (Suc c)
  then have c: "c < p" by simp
  then have r: "replicate (p - c) (0::real) = 0 # replicate (p - Suc c) 0"
    by (cases "p - c") (simp_all add: Suc_diff_Suc)
  have "fold (\<lambda>k x. x[k := f k]) [0..<Suc c] (replicate p (0::real))
      = (map f [0..<c] @ replicate (p - c) 0)[c := f c]"
    using Suc by simp
  also have "\<dots> = map f [0..<c] @ (replicate (p - c) 0)[0 := f c]"
    by (simp add: list_update_append)
  also have "\<dots> = map f [0..<Suc c] @ replicate (p - Suc c) 0"
    by (simp add: r)
  finally show ?case .
qed

lemma dS_loop:
  "fold (\<lambda>k x. x[k := f k]) [0..<p] (replicate p (0::real)) = map f [0..<p]"
  using vec_loop[of p p f] by simp

text \<open>The two writes of the loop that fills \<open>Alpha_p\<close>, for one \<open>j\<close> and then for all.\<close>

lemma skew_row_loop:
  assumes "is_mat p p A" "j < p" "d \<le> p"
  shows "is_mat p p (fold (\<lambda>k A. (let A = set_elt A j k (g j k) in set_elt A k j (- elt A j k)))
                        [Suc j..<d] A) \<and>
         elt (fold (\<lambda>k A. (let A = set_elt A j k (g j k) in set_elt A k j (- elt A j k)))
                        [Suc j..<d] A) =
           (\<lambda>a b. if a = j \<and> j < b \<and> b < d then g j b
                  else if b = j \<and> j < a \<and> a < d then - g j a else elt A a b)"
  using assms(3)
proof (induction d)
  case 0
  show ?case using assms by simp
next
  case (Suc d)
  let ?F = "\<lambda>k A. (let A = set_elt A j k (g j k) in set_elt A k j (- elt A j k))"
  show ?case
  proof (cases "Suc j \<le> d")
    case False
    then have e: "[Suc j..<Suc d] = []" by simp
    show ?thesis unfolding e using assms(1) False by (auto simp: fun_eq_iff)
  next
    case True
    let ?B = "fold ?F [Suc j..<d] A"
    from Suc have B: "is_mat p p ?B"
      and eB: "elt ?B = (\<lambda>a b. if a = j \<and> j < b \<and> b < d then g j b
                  else if b = j \<and> j < a \<and> a < d then - g j a else elt A a b)"
      by simp_all
    have d: "d < p" "j < d" using Suc.prems True by simp_all
    let ?B1 = "set_elt ?B j d (g j d)"
    have B1: "is_mat p p ?B1" by (rule is_mat_set_elt[OF B])
    have step: "fold ?F [Suc j..<Suc d] A = set_elt ?B1 d j (- elt ?B1 j d)"
      using True by (simp add: Let_def)
    have e1: "elt ?B1 j d = g j d"
      using assms(2) d by (simp add: elt_set_elt[OF B])
    have "is_mat p p (set_elt ?B1 d j (- elt ?B1 j d))" by (rule is_mat_set_elt[OF B1])
    moreover have "elt (set_elt ?B1 d j (- elt ?B1 j d)) =
        (\<lambda>a b. if a = j \<and> j < b \<and> b < Suc d then g j b
                  else if b = j \<and> j < a \<and> a < Suc d then - g j a else elt A a b)"
      using assms(2) d
      by (auto simp: fun_eq_iff elt_set_elt[OF B1] elt_set_elt[OF B] e1 eB less_Suc_eq)
    ultimately show ?thesis by (simp only: step)
  qed
qed

lemma skew_loop:
  assumes "is_mat p p A" "c \<le> p"
  shows "is_mat p p (fold (\<lambda>j A. fold (\<lambda>k A.
            (let A = set_elt A j k (g j k) in set_elt A k j (- elt A j k))) [Suc j..<p] A) [0..<c] A) \<and>
         elt (fold (\<lambda>j A. fold (\<lambda>k A.
            (let A = set_elt A j k (g j k) in set_elt A k j (- elt A j k))) [Suc j..<p] A) [0..<c] A) =
           (\<lambda>a b. if a < c \<and> a < b \<and> b < p then g a b
                  else if b < c \<and> b < a \<and> a < p then - g b a else elt A a b)"
  using assms(2)
proof (induction c)
  case 0
  show ?case using assms by simp
next
  case (Suc c)
  let ?F = "\<lambda>j A. fold (\<lambda>k A.
            (let A = set_elt A j k (g j k) in set_elt A k j (- elt A j k))) [Suc j..<p] A"
  let ?B = "fold ?F [0..<c] A"
  from Suc have B: "is_mat p p ?B"
    and eB: "elt ?B = (\<lambda>a b. if a < c \<and> a < b \<and> b < p then g a b
                  else if b < c \<and> b < a \<and> a < p then - g b a else elt A a b)"
    by simp_all
  have c: "c < p" using Suc.prems by simp
  have step: "fold ?F [0..<Suc c] A = ?F c ?B" by simp
  note r = skew_row_loop[OF B c order_refl, of g]
  have "elt (?F c ?B) a b =
      (if a < Suc c \<and> a < b \<and> b < p then g a b
                  else if b < Suc c \<and> b < a \<and> a < p then - g b a else elt A a b)" for a b
  proof -
    consider "a = c" "c < b" "b < p" | "b = c" "c < a" "a < p"
      | "\<not> (a = c \<and> c < b \<and> b < p)" "\<not> (b = c \<and> c < a \<and> a < p)" by blast
    then show ?thesis
    proof cases
      case 1
      then show ?thesis by (simp add: conjunct2[OF r])
    next
      case 2
      then show ?thesis by (simp add: conjunct2[OF r])
    next
      case 3
      then have "elt (?F c ?B) a b = elt ?B a b" by (simp only: conjunct2[OF r]) auto
      also have "\<dots> = (if a < Suc c \<and> a < b \<and> b < p then g a b
                  else if b < Suc c \<and> b < a \<and> a < p then - g b a else elt A a b)"
        using 3 by (simp only: eB less_Suc_eq) auto
      finally show ?thesis .
    qed
  qed
  then have "elt (?F c ?B) =
      (\<lambda>a b. if a < Suc c \<and> a < b \<and> b < p then g a b
                  else if b < Suc c \<and> b < a \<and> a < p then - g b a else elt A a b)"
    by (simp only: fun_eq_iff) blast
  with conjunct1[OF r] show ?case by (simp only: step)
qed

lemma Alpha_p_loop:
  "fold (\<lambda>j A. fold (\<lambda>k A.
      (let A = set_elt A j k
                 ((S ! j * elt C j k + S ! k * elt C k j) / ((S ! k + S ! j) * (S ! k - S ! j)))
       in set_elt A k j (- elt A j k))) [Suc j..<p] A) [0..<p] (zeros p p)
     = Alpha_p_spec p S C"
proof -
  note r = skew_loop[OF is_mat_zeros order_refl, of p
      "\<lambda>j k. (S ! j * elt C j k + S ! k * elt C k j) / ((S ! k + S ! j) * (S ! k - S ! j))"]
  show ?thesis
    unfolding Alpha_p_spec_def
    using conjunct1[OF r] is_mat_mat_of
    by (rule mat_eqI) (simp add: conjunct2[OF r] elt_mat_of elt_zeros)
qed

lemma slice_typed:
  assumes V: "is_mat m q V" and c: "c1 \<le> q"
  shows "is_mat m (c1 - c0) (slice V 0 m c0 c1)"
    "elt (slice V 0 m c0 c1) = (\<lambda>i j. if j < c1 - c0 then elt V i (c0 + j) else 0)"
proof -
  have s: "slice V 0 m c0 c1 = mat_of m (c1 - c0) (\<lambda>i j. elt V i (c0 + j))"
    using slice_mat_of[of m m c1 q "elt V" 0 c0] c by (simp add: mat_of_elt[OF V])
  show "is_mat m (c1 - c0) (slice V 0 m c0 c1)"
    unfolding s by (rule is_mat_mat_of)
  show "elt (slice V 0 m c0 c1) = (\<lambda>i j. if j < c1 - c0 then elt V i (c0 + j) else 0)"
    unfolding s using elt_outside[OF V] by (auto simp: fun_eq_iff elt_mat_of)
qed

lemma diag_typed:
  "is_mat (length s) (length s) (diag s)"
  "elt (diag s) = (\<lambda>i j. if i = j \<and> i < length s then s ! i else 0)"
  by (auto simp: diag_def is_mat_mat_of elt_mat_of fun_eq_iff)

lemma dot_assoc:
  assumes A: "is_mat a b A" and B: "is_mat b c B" and C: "is_mat c d C"
    and "0 < a" "0 < b" "0 < c"
  shows "dot (dot A B) C = dot A (dot B C)"
proof -
  note AB = dot_typed[OF A B \<open>0 < a\<close> \<open>0 < b\<close>]
  note BC = dot_typed[OF B C \<open>0 < b\<close> \<open>0 < c\<close>]
  note l = dot_typed[OF AB(1) C \<open>0 < a\<close> \<open>0 < c\<close>]
  note r = dot_typed[OF A BC(1) \<open>0 < a\<close> \<open>0 < b\<close>]
  show ?thesis
    using l(1) r(1) by (rule mat_eqI) (simp add: l(2) r(2) AB(2) BC(2) mm_assoc)
qed

lemma dot_msub_left:
  assumes A: "is_mat a b A" and B: "is_mat a b B" and C: "is_mat b c C"
    and "0 < a" "0 < b"
  shows "dot (msub A B) C = msub (dot A C) (dot B C)"
proof -
  note AB = msub_typed[OF A B \<open>0 < a\<close>]
  note AC = dot_typed[OF A C \<open>0 < a\<close> \<open>0 < b\<close>]
  note BC = dot_typed[OF B C \<open>0 < a\<close> \<open>0 < b\<close>]
  note l = dot_typed[OF AB(1) C \<open>0 < a\<close> \<open>0 < b\<close>]
  note r = msub_typed[OF AC(1) BC(1) \<open>0 < a\<close>]
  show ?thesis
    using l(1) r(1) by (rule mat_eqI) (simp add: l(2) r(2) AB(2) AC(2) BC(2) mm_sub_left)
qed

lemma is_mat_Alpha_p_spec: "is_mat p p (Alpha_p_spec p S C)"
  by (simp add: Alpha_p_spec_def is_mat_mat_of)

lemma Alpha_p_loop_unfolded:
  "fold (\<lambda>j A. fold (\<lambda>k A.
      set_elt (set_elt A j k
                 ((S ! j * elt C j k + S ! k * elt C k j) / ((S ! k + S ! j) * (S ! k - S ! j))))
        k j
        (- elt (set_elt A j k
                 ((S ! j * elt C j k + S ! k * elt C k j) / ((S ! k + S ! j) * (S ! k - S ! j))))
             j k)) [j + 1..<p] A) [0..<p] (zeros p p)
     = Alpha_p_spec p S C"
  using Alpha_p_loop[of S C p] by (simp add: Let_def)

text \<open>
  On arrays of conforming shapes the source computes the formulas of the specification,
  or divides by zero.
\<close>

lemma Stiefel_diff_SVD_refine:
  fixes n p m q :: nat
  assumes U: "is_mat n p U" and dY: "is_mat n m dY" and V: "is_mat m q V"
    and S: "length S = p" and n: "0 < n" and p: "0 < p" and m: "0 < m" and pq: "p \<le> q"
  shows "Stiefel_diff_SVD Y dY U S V =
           (if divisors_nonzero S p then Inr (Arrays (svd_formulas dY U S V)) else Inr Inf_or_NaN)"
proof -
  have sh: "nrows U = n" "ncols U = p" "nrows V = m" "ncols V = q" "nrows dY = n" "ncols dY = m"
    using U dY V n m by (simp_all add: is_mat_nrows is_mat_ncols)
  define S_inv where "S_inv = map (\<lambda>s. 1 / s) S"
  define V_p where "V_p = slice V 0 m 0 p"
  define dS where "dS = map (\<lambda>k. dot_vv (col U k) (dot_mv dY (col V k))) [0..<p]"
  have Vp: "is_mat m p V_p" using slice_typed(1)[OF V pq, of 0] by (simp add: V_p_def)
  have Si: "is_mat p p (diag S_inv)" using diag_typed(1)[of S_inv] by (simp add: S_inv_def S)
  have Sd: "is_mat p p (diag S)" using diag_typed(1)[of S] by (simp add: S)
  have dSd: "is_mat p p (diag dS)" using diag_typed(1)[of dS] by (simp add: dS_def)
  have a: "dot dY (dot V_p (diag S_inv)) = dot (dot dY V_p) (diag S_inv)"
    by (rule dot_assoc[OF dY Vp Si n m p, symmetric])
  have x: "dot (msub (dot (diag S) Al) (diag dS)) (diag S_inv)
      = msub (dot (dot (diag S) Al) (diag S_inv)) (dot (diag dS) (diag S_inv))"
    if "is_mat p p Al" for Al
    by (rule dot_msub_left[OF dot_typed(1)[OF Sd that p p] dSd Si p p])
  note x' = x[OF is_mat_Alpha_p_spec]
  have chk: "\<not> (0 < p \<and> q = 0)" "\<not> q < p" using p pq by simp_all
  show ?thesis
    unfolding Stiefel_diff_SVD_def svd_formulas_def dV_spec_def Let_def
    unfolding sh Alpha_p_loop_unfolded Alpha_mp_loop dS_loop
    unfolding S_inv_def[symmetric] V_p_def[symmetric] dS_def[symmetric]
    unfolding a x' skew_def
    using chk S by (simp add: eq_commute[of m q])
qed

text \<open>The entries of \<open>U\<^sup>T dY W\<close> for a block \<open>W\<close> of columns of \<open>V\<close>.\<close>

lemma UTdYV_block:
  fixes n p m q :: nat
  assumes U: "is_mat n p U" and dY: "is_mat n m dY" and V: "is_mat m q V"
    and n: "0 < n" and p: "0 < p" and m: "0 < m" and c: "c1 \<le> q"
  shows "is_mat p (c1 - c0) (dot (dot (transpose_m U) dY) (slice V 0 m c0 c1))"
    "\<And>j l. l < c1 - c0 \<Longrightarrow>
       elt (dot (dot (transpose_m U) dY) (slice V 0 m c0 c1)) j l = UTdYV U dY V j (c0 + l)"
proof -
  have sh: "nrows U = n" "nrows V = m"
    using U V by (simp_all add: is_mat_nrows)
  note UT = transpose_typed[OF U n]
  note W = slice_typed[OF V c, of c0]
  note UTdY = dot_typed[OF UT(1) dY p n]
  note C = dot_typed[OF UTdY(1) W(1) p m]
  show "is_mat p (c1 - c0) (dot (dot (transpose_m U) dY) (slice V 0 m c0 c1))" by (rule C(1))
  show "elt (dot (dot (transpose_m U) dY) (slice V 0 m c0 c1)) j l = UTdYV U dY V j (c0 + l)"
    if "l < c1 - c0" for j l
    using that by (simp add: C(2) UTdY(2) UT(2) W(2) mm_def UTdYV_def sh)
qed

lemma elt_Alpha_p_spec:
  fixes n p m q :: nat
  assumes U: "is_mat n p U" and dY: "is_mat n m dY" and V: "is_mat m q V"
    and n: "0 < n" and p: "0 < p" and m: "0 < m" and pq: "p \<le> q"
    and j: "j < p" and k: "k < p"
  shows "elt (Alpha_p_spec p S (dot (dot (transpose_m U) dY) (slice V 0 m 0 p))) j k
           = Alpha_p_entry dY U S V j k"
  using j k UTdYV_block(2)[OF U dY V n p m pq, of _ 0]
  by (simp add: Alpha_p_spec_def elt_mat_of Alpha_p_entry_def)

text \<open>The derivative of \<open>V\<close> that the specification describes, entry by entry.\<close>

lemma dV_spec_entries:
  fixes n p m q :: nat and S :: vec
  assumes U: "is_mat n p U" and dY: "is_mat n m dY" and V: "is_mat m q V"
    and n: "0 < n" and p: "0 < p" and m: "0 < m" and pq: "p \<le> q"
  defines "Alpha \<equiv> Alpha_p_spec p S (dot (dot (transpose_m U) dY) (slice V 0 m 0 p))"
  shows "is_mat m p (dV_spec dY U S V Alpha)"
    "\<And>i k. i < m \<Longrightarrow> k < p \<Longrightarrow> elt (dV_spec dY U S V Alpha) i k =
       (\<Sum>l = 0..<p. elt V i l * Alpha_p_entry dY U S V l k) +
       (if q = m \<and> p < m
        then \<Sum>l = 0..<m - p. elt V i (p + l) * (UTdYV U dY V k (p + l) / S ! k) else 0)"
proof -
  have sh: "nrows U = n" "ncols U = p" "nrows V = m" "ncols V = q"
    using U V n m by (simp_all add: is_mat_nrows is_mat_ncols)
  have Al: "is_mat p p Alpha" by (simp add: Alpha_def is_mat_Alpha_p_spec)
  note Vp = slice_typed[OF V pq, of 0]
  have Vp1: "is_mat m p (slice V 0 m 0 p)" using Vp(1) by simp
  note D1 = dot_typed[OF Vp1 Al m p]
  have e1: "elt (dot (slice V 0 m 0 p) Alpha) i k =
      (\<Sum>l = 0..<p. elt V i l * Alpha_p_entry dY U S V l k)" if "k < p" for i k
    unfolding D1(2) mm_def
    using that elt_Alpha_p_spec[OF U dY V n p m pq, of _ k S]
    by (intro sum.cong) (simp_all add: Vp(2) Alpha_def)
  show "is_mat m p (dV_spec dY U S V Alpha)"
    "\<And>i k. i < m \<Longrightarrow> k < p \<Longrightarrow> elt (dV_spec dY U S V Alpha) i k =
       (\<Sum>l = 0..<p. elt V i l * Alpha_p_entry dY U S V l k) +
       (if q = m \<and> p < m
        then \<Sum>l = 0..<m - p. elt V i (p + l) * (UTdYV U dY V k (p + l) / S ! k) else 0)"
  proof -
    show "is_mat m p (dV_spec dY U S V Alpha)"
    proof (cases "q = m \<and> p < m")
      case False
      then show ?thesis using D1(1) by (auto simp: dV_spec_def Let_def sh)
    next
      case True
      then have "dV_spec dY U S V Alpha = madd (dot (slice V 0 m 0 p) Alpha)
          (dot (slice V 0 m p m)
             (Alpha_mp_spec m p S (dot (dot (transpose_m U) dY) (slice V 0 m p m))))"
        by (simp add: dV_spec_def Let_def sh)
      then show ?thesis
        using is_mat_madd[of "dot (slice V 0 m 0 p) Alpha"] D1(1) m
        by (simp add: is_mat_nrows[OF D1(1)] is_mat_ncols[OF D1(1)])
    qed
    fix i k assume i: "i < m" and k: "k < p"
    show "elt (dV_spec dY U S V Alpha) i k =
       (\<Sum>l = 0..<p. elt V i l * Alpha_p_entry dY U S V l k) +
       (if q = m \<and> p < m
        then \<Sum>l = 0..<m - p. elt V i (p + l) * (UTdYV U dY V k (p + l) / S ! k) else 0)"
    proof (cases "q = m \<and> p < m")
      case False
      then have "dV_spec dY U S V Alpha = dot (slice V 0 m 0 p) Alpha"
        by (auto simp: dV_spec_def Let_def sh)
      then show ?thesis using False e1[OF k, of i] by auto
    next
      case True
      then have mp: "0 < m - p" and mq: "m \<le> q" by simp_all
      let ?C' = "dot (dot (transpose_m U) dY) (slice V 0 m p m)"
      let ?Amp = "Alpha_mp_spec m p S ?C'"
      have dv: "dV_spec dY U S V Alpha = madd (dot (slice V 0 m 0 p) Alpha)
          (dot (slice V 0 m p m) ?Amp)"
        using True by (simp add: dV_spec_def Let_def sh)
      note Vpm = slice_typed[OF V mq, of p]
      have Amp: "is_mat (m - p) p ?Amp" by (simp add: Alpha_mp_spec_def is_mat_mat_of)
      note D2 = dot_typed[OF Vpm(1) Amp m mp]
      note M = madd_typed[OF D1(1) D2(1) m]
      note C' = UTdYV_block(2)[OF U dY V n p m mq, of _ p]
      have e2: "elt (dot (slice V 0 m p m) ?Amp) i k =
          (\<Sum>l = 0..<m - p. elt V i (p + l) * (UTdYV U dY V k (p + l) / S ! k))"
        unfolding D2(2) mm_def
        using k by (intro sum.cong) (simp_all add: Vpm(2) Alpha_mp_spec_def elt_mat_of C')
      show ?thesis using True by (simp add: dv M(2) e1[OF k] e2)
    qed
  qed
qed

text \<open>The only exceptions of \<open>Stiefel_diff_SVD\<close> are those of numpy on shapes it rejects.\<close>

lemma Stiefel_diff_SVD_errors:
  "Stiefel_diff_SVD Y dY U S V = Inl e \<Longrightarrow> e = ValueError \<or> e = IndexError"
  by (auto simp: Stiefel_diff_SVD_def Let_def split: if_splits)

lemma dY3_ex_shape: "is_mat 3 3 dY3_ex"
  by (simp add: is_mat_def dY3_ex_def)

lemma V3_ex_shape: "is_mat 3 3 V3_ex"
  by (simp add: is_mat_def V3_ex_def)

lemma S_ex_divisors: "divisors_nonzero S_ex 2"
  by (simp add: divisors_nonzero_def S_ex_def upt_conv_Cons)

lemma S_near_ex_divisors: "divisors_nonzero S_near_ex 2"
  by (simp add: divisors_nonzero_def S_near_ex_def upt_conv_Cons)

lemma S_zero_ex_divisors: "\<not> divisors_nonzero S_zero_ex 2"
  by (simp add: divisors_nonzero_def S_zero_ex_def upt_conv_Cons)

lemma V3_ex_orthogonal: "dot (transpose_m V3_ex) V3_ex = identity 3"
  by (simp add: V3_ex_def dot_def transpose_m_def identity_def nrows_def ncols_def mat_of_def
      elt_def upt_conv_Cons)

lemma Y3_ex_svd:
  "Y3_ex = dot (dot U_ex (diag S_ex)) (transpose_m (slice V3_ex 0 3 0 2))"
  by (simp add: Y3_ex_def S_ex_def U_ex_def V3_ex_def diag_def slice_def dot_def
      transpose_m_def nrows_def ncols_def mat_of_def elt_def upt_conv_Cons)

lemma Y_near_ex_svd:
  "Y_near_ex = dot (dot U_ex (diag S_near_ex)) (transpose_m (slice V3_ex 0 3 0 2))"
  by (simp add: Y_near_ex_def S_near_ex_def U_ex_def V3_ex_def diag_def slice_def dot_def
      transpose_m_def nrows_def ncols_def mat_of_def elt_def upt_conv_Cons)

lemma Y_zero_ex_svd:
  "Y_zero_ex = dot (dot U_ex (diag S_zero_ex)) (transpose_m (slice V3_ex 0 3 0 2))"
  by (simp add: Y_zero_ex_def S_zero_ex_def U_ex_def V3_ex_def diag_def slice_def dot_def
      transpose_m_def nrows_def ncols_def mat_of_def elt_def upt_conv_Cons)

lemma dV3_ex:
  "dV_spec dY3_ex U_ex S_ex V3_ex
     (Alpha_p_spec 2 S_ex (dot (dot (transpose_m U_ex) dY3_ex) (slice V3_ex 0 3 0 2)))
   = [[7/3, 0], [0, -7/3], [3/2, 6]]"
  by (simp add: dV_spec_def Alpha_p_spec_def Alpha_mp_spec_def Let_def dY3_ex_def U_ex_def S_ex_def
      V3_ex_def dot_def madd_def transpose_m_def slice_def nrows_def ncols_def mat_of_def elt_def
      upt_conv_Cons)

section \<open>The claims about the singular value decomposition\<close>

text \<open>
  C8. On arrays of conforming shapes (\<open>U\<close> is \<open>n\<close> by \<open>p\<close>, \<open>dY\<close> is \<open>n\<close> by \<open>m\<close>, \<open>V\<close> is \<open>m\<close> by
  \<open>q\<close> with \<open>p \<le> q\<close>, \<open>S\<close> has length \<open>p\<close>) and a spectrum whose divisors are nonzero, as they
  are for the positive, pairwise distinct \<open>S\<close> of the specification, \<open>Stiefel_diff_SVD\<close>
  returns \<open>Alpha = Alpha_p\<close> and a \<open>dV\<close> that is \<open>V_p Alpha_p + V_{p:m} Alpha_mp\<close> with
  \<open>Alpha_mp[j, k] = C'[k, j] / S_k\<close> and \<open>C' = U\<^sup>T dY V_{p:m}\<close> if \<open>V\<close> is a full square \<open>m\<close>-by-\<open>m\<close>
  matrix and \<open>m > p\<close>, and \<open>V_p Alpha_p\<close> only otherwise. The statement gives \<open>dV\<close> both as
  these products and entry by entry. (Where a divisor is zero the arrays hold \<open>inf\<close> or
  \<open>nan\<close>, of which the real numbers say nothing.)
\<close>

theorem Stiefel_diff_SVD_complement:
  fixes n p m q :: nat
  assumes "is_mat n p U" and "is_mat n m dY" and "is_mat m q V" and "length S = p"
    and "0 < n" and "0 < p" and "0 < m" and "p \<le> q"
    and "divisors_nonzero S p"
  shows "\<exists>dU_bot A dU Alpha dS dV.
           Stiefel_diff_SVD Y dY U S V = Inr (Arrays (dU_bot, A, dU, Alpha, dS, dV)) \<and>
           Alpha = Alpha_p_spec p S (dot (dot (transpose_m U) dY) (slice V 0 m 0 p)) \<and>
           is_mat p p Alpha \<and>
           (\<forall>j<p. \<forall>k<p. elt Alpha j k = Alpha_p_entry dY U S V j k) \<and>
           dV = dV_spec dY U S V Alpha \<and>
           is_mat m p dV \<and>
           (\<forall>i<m. \<forall>k<p. elt dV i k =
              (\<Sum>l = 0..<p. elt V i l * elt Alpha l k) +
              (if q = m \<and> p < m
               then \<Sum>l = 0..<m - p. elt V i (p + l) * (UTdYV U dY V k (p + l) / S ! k)
               else 0))"
proof -
  let ?Alpha = "Alpha_p_spec p S (dot (dot (transpose_m U) dY) (slice V 0 m 0 p))"
  let ?dV = "dV_spec dY U S V ?Alpha"
  have sh: "ncols U = p" "nrows V = m"
    using assms by (simp_all add: is_mat_nrows is_mat_ncols)
  have "\<exists>dU_bot A dU dS. svd_formulas dY U S V = (dU_bot, A, dU, ?Alpha, dS, ?dV)"
    by (simp add: svd_formulas_def Let_def sh)
  then obtain dU_bot A dU dS
    where r: "Stiefel_diff_SVD Y dY U S V = Inr (Arrays (dU_bot, A, dU, ?Alpha, dS, ?dV))"
    using Stiefel_diff_SVD_refine[OF assms(1-8), of Y] assms(9) by auto
  have al: "elt ?Alpha j k = Alpha_p_entry dY U S V j k" if "j < p" "k < p" for j k
    using elt_Alpha_p_spec[where S = S, OF assms(1,2,3,5,6,7,8) that] .
  note dv = dV_spec_entries[where S = S, OF assms(1,2,3,5,6,7,8)]
  have "elt ?dV i k =
              (\<Sum>l = 0..<p. elt V i l * elt ?Alpha l k) +
              (if q = m \<and> p < m
               then \<Sum>l = 0..<m - p. elt V i (p + l) * (UTdYV U dY V k (p + l) / S ! k)
               else 0)" if "i < m" "k < p" for i k
    using dv(2)[OF that] that(2) by (simp add: al)
  with r al dv(1) is_mat_Alpha_p_spec[of p S] show ?thesis by blast
qed

theorem Stiefel_diff_SVD_complement_witness:
  "is_mat 3 2 U_ex \<and> is_mat 3 3 dY3_ex \<and> is_mat 3 3 V3_ex \<and> length S_ex = 2 \<and>
   divisors_nonzero S_ex 2 \<and>
   dot (transpose_m V3_ex) V3_ex = identity 3 \<and> ncols V3_ex = nrows V3_ex \<and> ncols U_ex < nrows V3_ex \<and>
   (\<exists>dU_bot A dU Alpha dS.
      Stiefel_diff_SVD Y3_ex dY3_ex U_ex S_ex V3_ex =
        Inr (Arrays (dU_bot, A, dU, Alpha, dS, [[7/3, 0], [0, -7/3], [3/2, 6]])))"
proof -
  have l: "length S_ex = 2" by (simp add: S_ex_def)
  have n: "0 < (3::nat)" and p: "0 < (2::nat)" and pq: "(2::nat) \<le> 3" by simp_all
  from Stiefel_diff_SVD_complement[OF U_ex_shape dY3_ex_shape V3_ex_shape l n p n pq S_ex_divisors,
      of Y3_ex]
  have "\<exists>dU_bot A dU Alpha dS.
      Stiefel_diff_SVD Y3_ex dY3_ex U_ex S_ex V3_ex =
        Inr (Arrays (dU_bot, A, dU, Alpha, dS, [[7/3, 0], [0, -7/3], [3/2, 6]]))"
    using dV3_ex by auto
  moreover have "ncols V3_ex = nrows V3_ex" "ncols U_ex < nrows V3_ex"
    by (simp_all add: ncols_def nrows_def V3_ex_def U_ex_def)
  ultimately show ?thesis
    using U_ex_shape dY3_ex_shape V3_ex_shape l S_ex_divisors V3_ex_orthogonal by blast
qed

text \<open>
  C3, as amended. \<open>Stiefel_diff_SVD\<close> checks nothing about \<open>S\<close> and raises neither
  \<open>NearDegenerateSpectrum\<close> nor \<open>RankDeficient\<close>. On arrays of conforming shapes, in exact
  arithmetic: when every \<open>S_k\<close> is nonzero and no two of them have the same square, however
  close they are, it returns the six arrays that the formulas of the specification
  give; when some \<open>S_k\<close> is zero or two of them have the same square it still returns, with
  \<open>inf\<close> or \<open>nan\<close> in the arrays.
\<close>

theorem Stiefel_diff_SVD_unchecked:
  fixes n p m q :: nat
  assumes "is_mat n p U" and "is_mat n m dY" and "is_mat m q V" and "length S = p"
    and "0 < n" and "0 < p" and "0 < m" and "p \<le> q"
  shows "Stiefel_diff_SVD Y dY U S V =
           (if divisors_nonzero S p then Inr (Arrays (svd_formulas dY U S V)) else Inr Inf_or_NaN)"
  using assms by (rule Stiefel_diff_SVD_refine)

theorem Stiefel_diff_SVD_unchecked_witness:
  "is_mat 3 2 U_ex \<and> is_mat 3 3 dY3_ex \<and> is_mat 3 3 V3_ex \<and>
   length S_near_ex = 2 \<and> divisors_nonzero S_near_ex 2 \<and>
   Stiefel_diff_SVD Y_near_ex dY3_ex U_ex S_near_ex V3_ex =
     Inr (Arrays (svd_formulas dY3_ex U_ex S_near_ex V3_ex)) \<and>
   length S_zero_ex = 2 \<and> \<not> divisors_nonzero S_zero_ex 2 \<and>
   Stiefel_diff_SVD Y_zero_ex dY3_ex U_ex S_zero_ex V3_ex = Inr Inf_or_NaN"
proof -
  have l: "length S_near_ex = 2" "length S_zero_ex = 2" by (simp_all add: S_near_ex_def S_zero_ex_def)
  have n: "0 < (3::nat)" and p: "0 < (2::nat)" and pq: "(2::nat) \<le> 3" by simp_all
  from
    Stiefel_diff_SVD_unchecked[OF U_ex_shape dY3_ex_shape V3_ex_shape l(1) n p n pq, of Y_near_ex]
    Stiefel_diff_SVD_unchecked[OF U_ex_shape dY3_ex_shape V3_ex_shape l(2) n p n pq, of Y_zero_ex]
    U_ex_shape dY3_ex_shape V3_ex_shape l S_near_ex_divisors S_zero_ex_divisors
  show ?thesis by simp
qed

text \<open>
  The claim C3 as it is stated fails for two singular values \<open>1e-13\<close> apart, where the
  call returns the arrays of the formulas, and for a zero singular value, where it
  returns too.
\<close>

theorem Stiefel_diff_SVD_near_degenerate_returns:
  "is_mat 3 2 U_ex \<and> is_mat 3 3 dY3_ex \<and> is_mat 3 3 V3_ex \<and>
   dot (transpose_m U_ex) U_ex = identity 2 \<and> dot (transpose_m V3_ex) V3_ex = identity 3 \<and>
   Y_near_ex = dot (dot U_ex (diag S_near_ex)) (transpose_m (slice V3_ex 0 3 0 2)) \<and>
   Y_zero_ex = dot (dot U_ex (diag S_zero_ex)) (transpose_m (slice V3_ex 0 3 0 2)) \<and>
   \<bar>S_near_ex ! 1 - S_near_ex ! 0\<bar> < 1 / 10 ^ 12 \<and>
   Stiefel_diff_SVD Y_near_ex dY3_ex U_ex S_near_ex V3_ex =
     Inr (Arrays (svd_formulas dY3_ex U_ex S_near_ex V3_ex)) \<and>
   S_zero_ex ! 1 = 0 \<and>
   Stiefel_diff_SVD Y_zero_ex dY3_ex U_ex S_zero_ex V3_ex = Inr Inf_or_NaN"
proof -
  have l: "length S_near_ex = 2" "length S_zero_ex = 2" by (simp_all add: S_near_ex_def S_zero_ex_def)
  have n: "0 < (3::nat)" and p: "0 < (2::nat)" and pq: "(2::nat) \<le> 3" by simp_all
  have "\<bar>S_near_ex ! 1 - S_near_ex ! 0\<bar> < 1 / 10 ^ 12" "S_zero_ex ! 1 = 0"
    by (simp_all add: S_near_ex_def S_zero_ex_def)
  with
    Stiefel_diff_SVD_refine[OF U_ex_shape dY3_ex_shape V3_ex_shape l(1) n p n pq, of Y_near_ex]
    Stiefel_diff_SVD_refine[OF U_ex_shape dY3_ex_shape V3_ex_shape l(2) n p n pq, of Y_zero_ex]
    S_near_ex_divisors S_zero_ex_divisors
  have "Stiefel_diff_SVD Y_near_ex dY3_ex U_ex S_near_ex V3_ex =
       Inr (Arrays (svd_formulas dY3_ex U_ex S_near_ex V3_ex)) \<and>
     Stiefel_diff_SVD Y_zero_ex dY3_ex U_ex S_zero_ex V3_ex = Inr Inf_or_NaN \<and>
     \<bar>S_near_ex ! 1 - S_near_ex ! 0\<bar> < 1 / 10 ^ 12 \<and> S_zero_ex ! 1 = 0"
    by simp
  with U_ex_shape dY3_ex_shape V3_ex_shape U_ex_orthonormal V3_ex_orthogonal
    Y_near_ex_svd[symmetric] Y_zero_ex_svd[symmetric]
  show ?thesis by simp
qed

end
